theory Spec2Isabelle
  imports Main "HOL-Library.AList"
begin

section \<open>Python strings\<close>

text \<open>
  The scraper works on Python \<open>str\<close> values. They are modelled as HOL strings; the
  string methods used by \<^verbatim>\<open>scraper.py\<close> and \<^verbatim>\<open>app.py\<close> are written out below, each for the
  argument shapes the source passes (one-character separators, a non-empty pattern for
  \<open>replace\<close>). Text is read as ASCII: the whitespace class is the one Python uses below
  code point 128.
\<close>

definition isspace :: "char \<Rightarrow> bool" where
  "isspace c \<longleftrightarrow>
     c \<in> {CHR 0x09, CHR 0x0A, CHR 0x0B, CHR 0x0C, CHR 0x0D,
          CHR 0x1C, CHR 0x1D, CHR 0x1E, CHR 0x1F, CHR 0x20}"

text \<open>\<open>s.strip()\<close>\<close>

definition strip :: "string \<Rightarrow> string" where
  "strip s = rev (dropWhile isspace (rev (dropWhile isspace s)))"

text \<open>\<open>s.rstrip(c)\<close> for a one-character argument.\<close>

definition rstrip :: "char \<Rightarrow> string \<Rightarrow> string" where
  "rstrip c s = rev (dropWhile (\<lambda>x. x = c) (rev s))"

text \<open>\<open>s.split(c)\<close> for a one-character separator: never the empty list.\<close>

fun split :: "char \<Rightarrow> string \<Rightarrow> string list" where
  "split c [] = [[]]"
| "split c (x # xs) =
     (if x = c then [] # split c xs
      else (case split c xs of
              [] \<Rightarrow> [[x]]
            | p # ps \<Rightarrow> (x # p) # ps))"

text \<open>\<open>s.rsplit(c, 1)\<close> for a one-character separator: one or two pieces.\<close>

definition rsplit1 :: "char \<Rightarrow> string \<Rightarrow> string list" where
  "rsplit1 c s =
     (if c \<in> set s
      then [rev (drop 1 (dropWhile (\<lambda>x. x \<noteq> c) (rev s))), rev (takeWhile (\<lambda>x. x \<noteq> c) (rev s))]
      else [s])"

text \<open>\<open>s.startswith(p)\<close>\<close>

definition startswith :: "string \<Rightarrow> string \<Rightarrow> bool" where
  "startswith p s \<longleftrightarrow> take (length p) s = p"

text \<open>
  \<open>s.replace(old, new)\<close>: every non-overlapping occurrence, scanning from the left. The
  source only passes a non-empty \<open>old\<close>; for an empty \<open>old\<close> the model returns \<open>s\<close>.
\<close>

function replace :: "string \<Rightarrow> string \<Rightarrow> string \<Rightarrow> string" where
  "replace old new [] = []"
| "replace old new (c # cs) =
     (if old \<noteq> [] \<and> startswith old (c # cs)
      then new @ replace old new (drop (length old) (c # cs))
      else c # replace old new cs)"
  by pat_completeness auto
termination
  by (relation "measure (\<lambda>(old, new, s). length s)") auto

text \<open>\<open>re.sub(r"\s+", " ", text)\<close>: every run of whitespace becomes one space.\<close>

function collapse_ws :: "string \<Rightarrow> string" where
  "collapse_ws [] = []"
| "collapse_ws (c # cs) =
     (if isspace c then CHR 0x20 # collapse_ws (dropWhile isspace cs)
      else c # collapse_ws cs)"
  by pat_completeness auto
termination
  by (relation "measure length") (auto simp: length_dropWhile_le less_Suc_eq_le)

text \<open>\<open>str(n)\<close> for a non-negative integer.\<close>

definition digit_chr :: "nat \<Rightarrow> char" where
  "digit_chr d = ''0123456789'' ! d"

fun str_nat :: "nat \<Rightarrow> string" where
  "str_nat n = (if n < 10 then [digit_chr n] else str_nat (n div 10) @ [digit_chr (n mod 10)])"

declare str_nat.simps [simp del]

text \<open>
  \<open>int(s)\<close> in base 10 on ASCII text: the parser skips whitespace on both sides, allows
  one sign, and lets single underscores separate the digits. Anything else raises
  \<open>ValueError\<close>, which is \<open>None\<close> here. The whitespace it skips is the C class, tab to
  carriage return and the space; the separators \<open>0x1C\<close> to \<open>0x1F\<close>, which \<open>strip\<close> removes,
  are not in it, so \<open>int\<close> raises on them.
\<close>

definition int_space :: "char \<Rightarrow> bool" where
  "int_space c \<longleftrightarrow> c \<in> {CHR 0x09, CHR 0x0A, CHR 0x0B, CHR 0x0C, CHR 0x0D, CHR 0x20}"

definition isdigit :: "char \<Rightarrow> bool" where
  "isdigit c \<longleftrightarrow> (48 :: nat) \<le> of_char c \<and> (of_char c :: nat) \<le> 57"

definition digit_val :: "char \<Rightarrow> nat" where
  "digit_val c = of_char c - 48"

fun int_digits :: "nat \<Rightarrow> string \<Rightarrow> nat option" where
  "int_digits acc [] = None"
| "int_digits acc [c] = (if isdigit c then Some (acc * 10 + digit_val c) else None)"
| "int_digits acc (c # d # ds) =
     (if isdigit c
      then (if d = CHR ''_'' then int_digits (acc * 10 + digit_val c) ds
            else int_digits (acc * 10 + digit_val c) (d # ds))
      else None)"

definition py_int :: "string \<Rightarrow> int option" where
  "py_int s =
     (case rev (dropWhile int_space (rev (dropWhile int_space s))) of
        [] \<Rightarrow> None
      | c # cs \<Rightarrow>
          if c = CHR ''-'' then map_option (\<lambda>n. - int n) (int_digits 0 cs)
          else if c = CHR ''+'' then map_option int (int_digits 0 cs)
          else map_option int (int_digits 0 (c # cs)))"

section \<open>Helpers of the scraper\<close>

text \<open>
  \<^verbatim>\<open>_ext_from_url\<close>: the query is cut at the first \<open>?\<close>, the last \<open>/\<close>-separated piece is
  taken, and its text after the last dot is the extension.
\<close>

definition ext_from_url :: "string \<Rightarrow> string" where
  "ext_from_url url =
     (let path = hd (split CHR ''?'' url) in
      if CHR ''.'' \<in> set (last (split CHR ''/'' path))
      then ''.'' @ last (rsplit1 CHR ''.'' (last (split CHR ''/'' path)))
      else ''.jpg'')"

text \<open>\<^verbatim>\<open>_clean\<close>: \<open>None\<close> and the empty string give the empty string.\<close>

definition clean :: "string option \<Rightarrow> string" where
  "clean text =
     (case text of
        None \<Rightarrow> []
      | Some t \<Rightarrow> if t = [] then [] else strip (collapse_ws t))"


section \<open>Data model\<close>

text \<open>
  Exceptions of the run. \<open>RequestError\<close> stands for every exception \<^verbatim>\<open>client.get\<close> raises
  by itself (connection failure, timeout, unusable URL); \<open>HTTPStatusError\<close> is raised by
  \<^verbatim>\<open>raise_for_status\<close>.
\<close>

datatype error =
  RequestError string
| HTTPStatusError nat
| OSError "string list"
| KeyError string
| ValueError string

text \<open>
  A parsed element as the scraper sees it: its string attributes, its class list, its text,
  and the elements a CSS selector finds below it, in document order. The parsed page is its
  root element. The selector engine is the parser library's, so its answers are data here.
\<close>

datatype tag =
  Tag (attrs: "(string \<times> string) list") (classes: "string list") (get_text: string)
      (select: "string \<Rightarrow> tag list")

text \<open>\<open>t.select_one(s)\<close>, \<open>t.get(k)\<close> and \<open>t[k]\<close>\<close>

definition select_one :: "tag \<Rightarrow> string \<Rightarrow> tag option" where
  "select_one t s = (case select t s of [] \<Rightarrow> None | x # _ \<Rightarrow> Some x)"

definition tag_get :: "tag \<Rightarrow> string \<Rightarrow> string option" where
  "tag_get t k = map_of (attrs t) k"

definition getitem :: "tag \<Rightarrow> string \<Rightarrow> error + string" where
  "getitem t k = (case map_of (attrs t) k of None \<Rightarrow> Inl (KeyError k) | Some v \<Rightarrow> Inr v)"

text \<open>Truth value of an optional string: \<open>None\<close> and \<open>""\<close> are false.\<close>

definition truthy :: "string option \<Rightarrow> bool" where
  "truthy v = (case v of None \<Rightarrow> False | Some s \<Rightarrow> s \<noteq> [])"

text \<open>\<open>a or b\<close> on optional strings.\<close>

definition py_or :: "string option \<Rightarrow> string option \<Rightarrow> string option" where
  "py_or a b = (if truthy a then a else b)"

datatype json =
  JNull
| JStr string
| JInt int
| JArr "json list"
| JObj "(string \<times> json) list"

text \<open>The \<open>metadata\<close> dictionary of one project, key by key.\<close>

record metadata =
  md_url :: string
  md_title :: string
  md_slug :: string
  md_short_description :: string
  md_description :: string
  md_tags :: "string list"
  md_info :: "(string \<times> string) list"
  md_price :: string
  md_platforms :: "string list"
  md_rating :: "string option"
  md_rating_count :: "string option"
  md_cover_image :: "string option"
  md_screenshots :: "string list"

definition json_opt :: "string option \<Rightarrow> json" where
  "json_opt v = (case v of None \<Rightarrow> JNull | Some s \<Rightarrow> JStr s)"

definition metadata_json :: "metadata \<Rightarrow> json" where
  "metadata_json m = JObj
     [(''url'', JStr (md_url m)),
      (''title'', JStr (md_title m)),
      (''slug'', JStr (md_slug m)),
      (''short_description'', JStr (md_short_description m)),
      (''description'', JStr (md_description m)),
      (''tags'', JArr (map JStr (md_tags m))),
      (''info'', JObj (map (\<lambda>(k, v). (k, JStr v)) (md_info m))),
      (''price'', JStr (md_price m)),
      (''platforms'', JArr (map JStr (md_platforms m))),
      (''rating'', json_opt (md_rating m)),
      (''rating_count'', json_opt (md_rating_count m)),
      (''cover_image'', json_opt (md_cover_image m)),
      (''screenshots'', JArr (map JStr (md_screenshots m)))]"

section \<open>Effects\<close>

text \<open>
  A path is its list of components. \<open>p / s\<close> for a one-component \<open>s\<close>: the empty
  component and \<open>.\<close> leave the path as it is.
\<close>

type_synonym path = "string list"

definition path_div :: "path \<Rightarrow> string \<Rightarrow> path" where
  "path_div p s = (if s = [] \<or> s = ''.'' then p else p @ [s])"

definition parent :: "path \<Rightarrow> path" where
  "parent p = butlast p"

text \<open>
  Everything a run does to the outside is an event of its trace, in order: requests sent,
  directories made, files written (a text file holds a JSON document), warnings logged and
  calls of the progress callback.
\<close>

datatype event =
  Get string
| Mkdir path
| WriteBytes path string
| WriteText path json
| Warning string
| Progress string

text \<open>
  The outside world answers: what a request returns (\<open>None\<close>: the request raised), what
  the parser makes of a page, and whether a directory can be made or a file written.
  The answers do not change during a run. The limiter (\<open>async with sem\<close>) only delays a
  request and is left out; the run is one task and its steps happen in program order.
\<close>

record response =
  status :: nat
  content :: string

record env =
  http :: "string \<Rightarrow> response option"
  parse :: "string \<Rightarrow> tag"
  mkdir_ok :: "path \<Rightarrow> bool"
  write_ok :: "path \<Rightarrow> bool"

text \<open>
  The state of a run: the trace so far and the state of whoever listens to the progress
  callback. A computation returns a value or raises, and leaves a state either way.
\<close>

record 's world =
  trace :: "event list"
  sink :: 's

type_synonym ('a, 's) prog = "'s world \<Rightarrow> (error + 'a) \<times> 's world"

definition ret :: "'a \<Rightarrow> ('a, 's) prog" where
  "ret x w = (Inr x, w)"

definition raise :: "error \<Rightarrow> ('a, 's) prog" where
  "raise e w = (Inl e, w)"

definition lift :: "error + 'a \<Rightarrow> ('a, 's) prog" where
  "lift r w = (r, w)"

definition bnd :: "('a, 's) prog \<Rightarrow> ('a \<Rightarrow> ('b, 's) prog) \<Rightarrow> ('b, 's) prog" where
  "bnd m f w = (case m w of (Inl e, w') \<Rightarrow> (Inl e, w') | (Inr x, w') \<Rightarrow> f x w')"

definition emit :: "event \<Rightarrow> (unit, 's) prog" where
  "emit ev w = (Inr (), w\<lparr>trace := trace w @ [ev]\<rparr>)"

definition client_get :: "env \<Rightarrow> string \<Rightarrow> (response, 's) prog" where
  "client_get e url =
     bnd (emit (Get url)) (\<lambda>_.
       case http e url of None \<Rightarrow> raise (RequestError url) | Some r \<Rightarrow> ret r)"

text \<open>\<^verbatim>\<open>resp.raise_for_status()\<close> raises for a final status outside 200 to 299.\<close>

definition raise_for_status :: "response \<Rightarrow> (unit, 's) prog" where
  "raise_for_status resp =
     (if 200 \<le> status resp \<and> status resp < 300 then ret ()
      else raise (HTTPStatusError (status resp)))"

text \<open>
  \<^verbatim>\<open>mkdir(..., exist_ok=True)\<close>, \<^verbatim>\<open>write_bytes\<close> and \<^verbatim>\<open>write_text(json.dumps(...))\<close>: each
  raises \<open>OSError\<close> and leaves no event when the world refuses it.
\<close>

definition mkdir :: "env \<Rightarrow> path \<Rightarrow> (unit, 's) prog" where
  "mkdir e p = (if mkdir_ok e p then emit (Mkdir p) else raise (OSError p))"

definition write_bytes :: "env \<Rightarrow> path \<Rightarrow> string \<Rightarrow> (unit, 's) prog" where
  "write_bytes e p c = (if write_ok e p then emit (WriteBytes p c) else raise (OSError p))"

definition write_text :: "env \<Rightarrow> path \<Rightarrow> json \<Rightarrow> (unit, 's) prog" where
  "write_text e p j = (if write_ok e p then emit (WriteText p j) else raise (OSError p))"

text \<open>
  The progress callback: a function of the message on the listener's state, which may
  raise. \<open>if on_progress: on_progress(msg)\<close> calls it when one was given.
\<close>

type_synonym 's callback = "string \<Rightarrow> 's \<Rightarrow> (error + unit) \<times> 's"

definition call_progress :: "'s callback option \<Rightarrow> string \<Rightarrow> (unit, 's) prog" where
  "call_progress on_progress msg =
     (case on_progress of
        None \<Rightarrow> ret ()
      | Some f \<Rightarrow>
          bnd (emit (Progress msg)) (\<lambda>_ w.
            case f msg (sink w) of (r, s') \<Rightarrow> (r, w\<lparr>sink := s'\<rparr>)))"

section \<open>Fetching and downloading\<close>

text \<open>\<^verbatim>\<open>_fetch\<close>\<close>

definition fetch :: "env \<Rightarrow> string \<Rightarrow> (response, 's) prog" where
  "fetch e url =
     bnd (client_get e url) (\<lambda>resp.
     bnd (raise_for_status resp) (\<lambda>_.
     ret resp))"

text \<open>
  \<^verbatim>\<open>_download_file\<close>: the body of the \<open>try\<close>, then the whole function, whose handler logs a
  warning and returns \<open>False\<close> for whatever the body raised.
\<close>

definition download_body :: "env \<Rightarrow> string \<Rightarrow> path \<Rightarrow> (bool, 's) prog" where
  "download_body e url dest =
     bnd (client_get e url) (\<lambda>resp.
     bnd (raise_for_status resp) (\<lambda>_.
     bnd (mkdir e (parent dest)) (\<lambda>_.
     bnd (write_bytes e dest (content resp)) (\<lambda>_.
     ret True))))"

definition download_file :: "env \<Rightarrow> string \<Rightarrow> path \<Rightarrow> (bool, 's) prog" where
  "download_file e url dest w =
     (case download_body e url dest w of
        (Inl exn, w') \<Rightarrow> bnd (emit (Warning url)) (\<lambda>_. ret False) w'
      | (Inr b, w') \<Rightarrow> (Inr b, w'))"


section \<open>The listing paginator\<close>

text \<open>
  The \<open>for\<close> loop over the link elements of one listing page: a link is added when its
  \<open>href\<close> is non-empty and not collected yet, and only then counted.
\<close>

fun collect_links :: "tag list \<Rightarrow> string list \<Rightarrow> nat \<Rightarrow> string list \<times> nat" where
  "collect_links [] urls found = (urls, found)"
| "collect_links (a # cells) urls found =
     (let href = tag_get a ''href'' in
      if truthy href \<and> the href \<notin> set urls
      then collect_links cells (urls @ [the href]) (found + 1)
      else collect_links cells urls found)"

definition page_url :: "string \<Rightarrow> nat \<Rightarrow> string" where
  "page_url base page = (if page = 1 then base else base @ ''?page='' @ str_nat page)"

text \<open>The link elements of a listing page: the title links, or else the thumbnail links.\<close>

definition listing_cells :: "tag \<Rightarrow> tag list" where
  "listing_cells soup =
     (let cells = select soup ''.game_cell a.game_link, .game_cell a.title'' in
      if cells = [] then select soup ''.game_cell .game_thumb a'' else cells)"

text \<open>
  The \<open>while True\<close> loop of \<^verbatim>\<open>fetch_project_urls\<close>, from a page number and the links
  collected so far. A site whose every page has a new link and a next-page link keeps it
  running for ever: then there is no result.
\<close>

partial_function (option) fetch_loop ::
  "env \<Rightarrow> string \<Rightarrow> nat \<Rightarrow> string list \<Rightarrow> 's world \<Rightarrow> ((error + string list) \<times> 's world) option"
where
  "fetch_loop e base page urls w =
     (case fetch e (page_url base page) w of
        (Inl exn, w') \<Rightarrow> Some (Inl exn, w')
      | (Inr resp, w') \<Rightarrow>
          (let soup = parse e (content resp);
               r = collect_links (listing_cells soup) urls 0;
               next_btn = select_one soup ''a.next_page''
           in if next_btn = None \<or> snd r = 0 then Some (Inr (fst r), w')
              else fetch_loop e base (page + 1) (fst r) w'))"

declare fetch_loop.simps [code]

definition fetch_project_urls ::
  "env \<Rightarrow> string \<Rightarrow> 's world \<Rightarrow> ((error + string list) \<times> 's world) option" where
  "fetch_project_urls e creator w =
     fetch_loop e (''https://'' @ creator @ ''.itch.io'') 1 [] w"

section \<open>Scraping one project\<close>

text \<open>
  \<^verbatim>\<open>scrape_project\<close> is one long function. Its field reads are written as functions of
  the parsed page first, one per field and with the source's variable names; the reads
  that index a tag by \<open>["content"]\<close> can raise \<open>KeyError\<close> and return a sum. The function
  itself follows and keeps the source's order of reads and effects.

  The title: the cleaned heading, or else the \<open>og:title\<close> tag's \<open>content\<close> when the tag is
  there, or else what follows the last \<open>/\<close> of the URL.
\<close>

definition extract_title :: "tag \<Rightarrow> string \<Rightarrow> error + string" where
  "extract_title soup url =
     (let title = clean (map_option get_text (select_one soup ''h1.game_title'')) in
      if title = []
      then (case select_one soup ''meta[property=\"og:title\"]'' of
              Some og \<Rightarrow> getitem og ''content''
            | None \<Rightarrow> Inr (last (rsplit1 CHR ''/'' url)))
      else Inr title)"

definition slug_of :: "string \<Rightarrow> string" where
  "slug_of url = last (rsplit1 CHR ''/'' (rstrip CHR ''/'' url))"

definition extract_description :: "tag \<Rightarrow> string" where
  "extract_description soup =
     (case select_one soup ''.formatted_description'' of
        None \<Rightarrow> []
      | Some desc_el \<Rightarrow> clean (Some (get_text desc_el)))"

definition extract_short_text :: "tag \<Rightarrow> string" where
  "extract_short_text soup =
     (case select_one soup ''meta[property=\"og:description\"]'' of
        None \<Rightarrow> []
      | Some st_el \<Rightarrow>
          clean (Some (case tag_get st_el ''content'' of None \<Rightarrow> [] | Some c \<Rightarrow> c)))"

definition extract_tags :: "tag \<Rightarrow> string list" where
  "extract_tags soup =
     map (\<lambda>tag_a. clean (Some (get_text tag_a)))
       (select soup (''.game_info_panel_widget a[href*='' @ [CHR 0x27] @ ''/tag-'' @ [CHR 0x27] @ '']''))"

text \<open>Storing a key of a dictionary keeps the place of a key that is already there.\<close>

definition info_row :: "(string \<times> string) list \<Rightarrow> tag \<Rightarrow> (string \<times> string) list" where
  "info_row info row =
     (let cells = select row ''td'' in
      if length cells = 2
      then (let key = rstrip CHR '':'' (clean (Some (get_text (cells ! 0))));
                val = clean (Some (get_text (cells ! 1)))
            in if key \<noteq> [] then AList.update key val info else info)
      else info)"

definition extract_info :: "tag \<Rightarrow> (string \<times> string) list" where
  "extract_info soup = foldl info_row [] (select soup ''.game_info_panel_widget table tr'')"

definition extract_price :: "tag \<Rightarrow> string" where
  "extract_price soup =
     (case select_one soup ''.buy_btn_widget .price'' of
        Some buy_btn \<Rightarrow> clean (Some (get_text buy_btn))
      | None \<Rightarrow> ''Free'')"

definition extract_platforms :: "tag \<Rightarrow> string list" where
  "extract_platforms soup =
     concat (map (\<lambda>span. map (replace ''icon-'' []) (filter (startswith ''icon-'') (classes span)))
       (select soup ''.game_info_panel_widget .icon''))"

text \<open>The two rating fields; \<open>rating\<close> is read first.\<close>

definition extract_rating :: "tag \<Rightarrow> error + (string option \<times> string option)" where
  "extract_rating soup =
     (let rating_el = select_one soup ''meta[itemprop=\"ratingValue\"]'';
          rating_count_el = select_one soup ''meta[itemprop=\"ratingCount\"]''
      in case (case rating_el of None \<Rightarrow> Inr None
                 | Some el \<Rightarrow> map_sum id Some (getitem el ''content'')) of
           Inl exn \<Rightarrow> Inl exn
         | Inr rating \<Rightarrow>
             (case (case rating_count_el of None \<Rightarrow> Inr None
                      | Some el \<Rightarrow> map_sum id Some (getitem el ''content'')) of
                Inl exn \<Rightarrow> Inl exn
              | Inr rating_count \<Rightarrow> Inr (rating, rating_count)))"

text \<open>The cover URL: the \<open>og:image\<close> tag, or else the header or cover image element.\<close>

definition extract_cover_url :: "tag \<Rightarrow> error + string option" where
  "extract_cover_url soup =
     (case (case select_one soup ''meta[property=\"og:image\"]'' of
              None \<Rightarrow> Inr None
            | Some cover_el \<Rightarrow> map_sum id Some (getitem cover_el ''content'')) of
        Inl exn \<Rightarrow> Inl exn
      | Inr cover_url \<Rightarrow>
          if \<not> truthy cover_url
          then (case select_one soup ''.header img, .game_cover img'' of
                  None \<Rightarrow> Inr cover_url
                | Some cover_el \<Rightarrow>
                    Inr (Some (case py_or (tag_get cover_el ''src'')
                                         (Some (case tag_get cover_el ''data-lazy_src'' of
                                                  None \<Rightarrow> [] | Some v \<Rightarrow> v)) of
                                 None \<Rightarrow> [] | Some v \<Rightarrow> v)))
          else Inr cover_url)"

definition extract_screenshot_urls :: "tag \<Rightarrow> string list" where
  "extract_screenshot_urls soup =
     (let screenshot_urls =
            map the (filter truthy (map (\<lambda>a_tag. tag_get a_tag ''href'')
                                     (select soup ''.screenshot_list a'')))
      in if screenshot_urls = []
         then map the (filter truthy
                (map (\<lambda>img. py_or (tag_get img ''src'') (tag_get img ''data-lazy_src''))
                   (select soup ''.screenshot_list img'')))
         else screenshot_urls)"

text \<open>A download task is \<open>(label, url, dest)\<close>; the loop over the tasks drops each result.\<close>

type_synonym task = "string \<times> string \<times> path"

fun download_all :: "env \<Rightarrow> task list \<Rightarrow> (unit, 's) prog" where
  "download_all e [] = ret ()"
| "download_all e ((label, img_url, dest) # tasks) =
     bnd (download_file e img_url dest) (\<lambda>_. download_all e tasks)"

definition enumerate :: "'a list \<Rightarrow> (nat \<times> 'a) list" where
  "enumerate xs = zip [0..<length xs] xs"

definition scrape_project ::
  "env \<Rightarrow> string \<Rightarrow> path \<Rightarrow> 's callback option \<Rightarrow> (metadata, 's) prog" where
  "scrape_project e url base_dir on_progress =
     bnd (fetch e url) (\<lambda>resp.
     let soup = parse e (content resp) in
     bnd (lift (extract_title soup url)) (\<lambda>title.
     let slug = slug_of url;
         project_dir = path_div base_dir slug in
     bnd (mkdir e project_dir) (\<lambda>_.
     let description = extract_description soup;
         short_text = extract_short_text soup;
         tags = extract_tags soup;
         info = extract_info soup;
         price = extract_price soup;
         platforms = extract_platforms soup in
     bnd (lift (extract_rating soup)) (\<lambda>(rating, rating_count).
     let images_dir = path_div project_dir ''images'' in
     bnd (mkdir e images_dir) (\<lambda>_.
     bnd (lift (extract_cover_url soup)) (\<lambda>cover_url.
     let cover_tasks =
           (if truthy cover_url
            then [(''cover'', the cover_url,
                   path_div images_dir (''cover'' @ ext_from_url (the cover_url)))]
            else []);
         cover_saved =
           (if truthy cover_url
            then Some (''images/cover'' @ ext_from_url (the cover_url))
            else None);
         screenshot_urls = extract_screenshot_urls soup;
         screenshot_tasks =
           map (\<lambda>(i, surl).
                  (''screenshot_'' @ str_nat i, surl,
                   path_div images_dir (''screenshot_'' @ str_nat i @ ext_from_url surl)))
             (enumerate screenshot_urls);
         screenshot_saved =
           map (\<lambda>(i, surl). ''images/screenshot_'' @ str_nat i @ ext_from_url surl)
             (enumerate screenshot_urls) in
     bnd (download_all e (cover_tasks @ screenshot_tasks)) (\<lambda>_.
     let metadata =
           \<lparr>md_url = url, md_title = title, md_slug = slug,
            md_short_description = short_text, md_description = description,
            md_tags = tags, md_info = info, md_price = price, md_platforms = platforms,
            md_rating = rating, md_rating_count = rating_count,
            md_cover_image = cover_saved, md_screenshots = screenshot_saved\<rparr> in
     bnd (write_text e (path_div project_dir ''metadata.json'') (metadata_json metadata)) (\<lambda>_.
     bnd (call_progress on_progress (if title \<noteq> [] then title else slug)) (\<lambda>_.
     ret metadata)))))))))"

section \<open>The orchestrator\<close>

text \<open>The \<open>for\<close> loop over the project URLs, from the results so far.\<close>

fun scrape_all ::
  "env \<Rightarrow> path \<Rightarrow> 's callback option \<Rightarrow> string list \<Rightarrow> metadata list \<Rightarrow> (metadata list, 's) prog"
where
  "scrape_all e output_dir on_progress [] results = ret results"
| "scrape_all e output_dir on_progress (url # project_urls) results =
     bnd (scrape_project e url output_dir on_progress) (\<lambda>meta.
     scrape_all e output_dir on_progress project_urls (results @ [meta]))"

definition index_json :: "string \<Rightarrow> metadata list \<Rightarrow> json" where
  "index_json creator results = JObj
     [(''creator'', JStr creator),
      (''project_count'', JInt (int (length results))),
      (''projects'', JArr (map metadata_json results))]"

text \<open>What \<^verbatim>\<open>scrape_creator\<close> does once the project URLs are known.\<close>

definition scrape_listed ::
  "env \<Rightarrow> string \<Rightarrow> path \<Rightarrow> 's callback option \<Rightarrow> string list \<Rightarrow> (metadata list, 's) prog"
where
  "scrape_listed e creator output_dir on_progress project_urls =
     bnd (if project_urls = []
          then raise (ValueError (''No public projects found for '' @ [CHR 0x27] @ creator @ [CHR 0x27]))
          else ret ()) (\<lambda>_.
     bnd (call_progress on_progress (''__total__'' @ str_nat (length project_urls))) (\<lambda>_.
     bnd (scrape_all e output_dir on_progress project_urls []) (\<lambda>results.
     bnd (write_text e (path_div output_dir ''index.json'') (index_json creator results)) (\<lambda>_.
     ret results))))"

definition scrape_creator ::
  "env \<Rightarrow> string \<Rightarrow> path \<Rightarrow> 's callback option \<Rightarrow> 's world
     \<Rightarrow> ((error + metadata list) \<times> 's world) option" where
  "scrape_creator e creator output_dir on_progress w =
     (case mkdir e output_dir w of
        (Inl exn, w') \<Rightarrow> Some (Inl exn, w')
      | (Inr _, w') \<Rightarrow>
          (case fetch_project_urls e creator w' of
             None \<Rightarrow> None
           | Some (Inl exn, w'') \<Rightarrow> Some (Inl exn, w'')
           | Some (Inr project_urls, w'') \<Rightarrow>
               Some (scrape_listed e creator output_dir on_progress project_urls w'')))"

section \<open>The job registry's callback\<close>

datatype job_status = Running | Done | Failed

record job =
  status_of :: job_status
  progress :: "string list"
  total :: int
  job_error :: "string option"
  zip_path :: "string option"

text \<open>
  \<^verbatim>\<open>on_progress\<close> of \<^verbatim>\<open>_run_scrape\<close>, on the job it closes over. \<open>int\<close> raises on text that
  is not a number, before the job is touched.
\<close>

definition on_progress :: "job callback" where
  "on_progress msg j =
     (if startswith ''__total__'' msg
      then (case py_int (replace ''__total__'' [] msg) of
              None \<Rightarrow> (Inl (ValueError ''invalid literal for int() with base 10''), j)
            | Some n \<Rightarrow> (Inr (), j\<lparr>total := n\<rparr>))
      else (Inr (), j\<lparr>progress := progress j @ [msg]\<rparr>))"

section \<open>Example sites\<close>

text \<open>
  A small site for concrete runs. Creator \<open>dev\<close> has two listing pages: the first links
  project \<open>a\<close> and has a next-page link; the second repeats \<open>a\<close>, has a link without
  \<open>href\<close>, links project \<open>b\<close>, and has no next-page link. Project \<open>a\<close> has a heading, a
  cover whose request fails, one screenshot that downloads and one that answers 404.
  Project \<open>b\<close> has only an \<open>og:title\<close> tag with empty content. Page \<open>c\<close> has a
  description tag and a rating tag, both without a \<open>content\<close> attribute. Creator \<open>nobody\<close> lists nothing; creator \<open>broken\<close> lists
  \<open>b\<close> and a page that cannot be fetched.
\<close>

definition leaf :: "(string \<times> string) list \<Rightarrow> string \<Rightarrow> tag" where
  "leaf as t = Tag as [] t (\<lambda>_. [])"

definition listing1 :: tag where
  "listing1 = Tag [] [] [] (\<lambda>s.
     if s = ''.game_cell a.game_link, .game_cell a.title''
     then [leaf [(''href'', ''https://dev.itch.io/a'')] ''A'']
     else if s = ''a.next_page'' then [leaf [] ''Next'']
     else [])"

definition listing2 :: tag where
  "listing2 = Tag [] [] [] (\<lambda>s.
     if s = ''.game_cell .game_thumb a''
     then [leaf [(''href'', ''https://dev.itch.io/a'')] [], leaf [] [],
           leaf [(''href'', ''https://dev.itch.io/b'')] []]
     else [])"

definition listing_empty :: tag where
  "listing_empty = Tag [] [] [] (\<lambda>s. [])"

definition listing_broken :: tag where
  "listing_broken = Tag [] [] [] (\<lambda>s.
     if s = ''.game_cell a.game_link, .game_cell a.title''
     then [leaf [(''href'', ''https://dev.itch.io/b'')] ''B'',
           leaf [(''href'', ''https://broken.itch.io/x'')] ''X'']
     else [])"

definition page_a :: tag where
  "page_a = Tag [] [] [] (\<lambda>s.
     if s = ''h1.game_title'' then [leaf [] ''  Game   A '']
     else if s = ''meta[property=\"og:image\"]''
     then [leaf [(''content'', ''https://img.itch.zone/a/cover.png?x=1'')] []]
     else if s = ''.screenshot_list a''
     then [leaf [(''href'', ''https://img.itch.zone/a/s0.gif'')] [],
           leaf [(''href'', ''https://img.itch.zone/a/download'')] []]
     else [])"

definition page_b :: tag where
  "page_b = Tag [] [] [] (\<lambda>s.
     if s = ''meta[property=\"og:title\"]'' then [leaf [(''content'', [])] []]
     else [])"

definition page_c :: tag where
  "page_c = Tag [] [] [] (\<lambda>s.
     if s = ''h1.game_title'' then [leaf [] ''Game C'']
     else if s = ''meta[property=\"og:description\"]''
     then [leaf [(''property'', ''og:description'')] []]
     else if s = ''meta[itemprop=\"ratingValue\"]''
     then [leaf [(''itemprop'', ''ratingValue'')] []]
     else [])"

definition demo :: env where
  "demo = \<lparr>http = (\<lambda>url.
       if url = ''https://dev.itch.io'' then Some \<lparr>status = 200, content = ''L1''\<rparr>
       else if url = ''https://dev.itch.io?page=2'' then Some \<lparr>status = 200, content = ''L2''\<rparr>
       else if url = ''https://dev.itch.io/a'' then Some \<lparr>status = 200, content = ''PA''\<rparr>
       else if url = ''https://dev.itch.io/b'' then Some \<lparr>status = 200, content = ''PB''\<rparr>
       else if url = ''https://dev.itch.io/c'' then Some \<lparr>status = 200, content = ''PC''\<rparr>
       else if url = ''https://img.itch.zone/a/s0.gif'' then Some \<lparr>status = 200, content = ''GIF''\<rparr>
       else if url = ''https://img.itch.zone/a/download'' then Some \<lparr>status = 404, content = []\<rparr>
       else if url = ''https://nobody.itch.io'' then Some \<lparr>status = 200, content = ''L0''\<rparr>
       else if url = ''https://broken.itch.io'' then Some \<lparr>status = 200, content = ''L3''\<rparr>
       else None),
     parse = (\<lambda>t. if t = ''L1'' then listing1 else if t = ''L2'' then listing2
                   else if t = ''L3'' then listing_broken
                   else if t = ''PA'' then page_a else if t = ''PB'' then page_b
                   else if t = ''PC'' then page_c else listing_empty),
     mkdir_ok = (\<lambda>_. True), write_ok = (\<lambda>_. True)\<rparr>"

definition job0 :: job where
  "job0 = \<lparr>status_of = Running, progress = [], total = 0, job_error = None, zip_path = None\<rparr>"

definition w0 :: "job world" where
  "w0 = \<lparr>trace = [], sink = job0\<rparr>"

section \<open>Reading a trace\<close>

text \<open>
  \<open>extends P m\<close>: whatever \<open>m\<close> returns or raises, it only appends events to the trace, and
  each of them satisfies \<open>P\<close>.
\<close>

definition extends :: "(event \<Rightarrow> bool) \<Rightarrow> ('a, 's) prog \<Rightarrow> bool" where
  "extends P m \<longleftrightarrow>
     (\<forall>w r w'. m w = (r, w') \<longrightarrow> (\<exists>evs. trace w' = trace w @ evs \<and> list_all P evs))"

text \<open>The events of downloading: requests, directories, image files and warnings.\<close>

fun is_asset :: "event \<Rightarrow> bool" where
  "is_asset (Get url) = True"
| "is_asset (Mkdir p) = True"
| "is_asset (WriteBytes p c) = True"
| "is_asset (Warning url) = True"
| "is_asset (WriteText p j) = False"
| "is_asset (Progress msg) = False"

text \<open>The messages the progress callback was called with, in order.\<close>

fun progress_of :: "event list \<Rightarrow> string list" where
  "progress_of [] = []"
| "progress_of (Progress msg # evs) = msg # progress_of evs"
| "progress_of (ev # evs) = progress_of evs"

text \<open>The message for a finished project: \<open>title or slug\<close>.\<close>

definition done_message :: "metadata \<Rightarrow> string" where
  "done_message m = (if md_title m \<noteq> [] then md_title m else md_slug m)"

text \<open>What the runs on the example site return and append to the trace.\<close>

definition md_a :: metadata where
  "md_a = \<lparr>md_url = ''https://dev.itch.io/a'', md_title = ''Game A'', md_slug = ''a'',
     md_short_description = [], md_description = [], md_tags = [], md_info = [],
     md_price = ''Free'', md_platforms = [], md_rating = None, md_rating_count = None,
     md_cover_image = Some ''images/cover.png'',
     md_screenshots = [''images/screenshot_0.gif'', ''images/screenshot_1.jpg'']\<rparr>"

definition md_b :: metadata where
  "md_b = \<lparr>md_url = ''https://dev.itch.io/b'', md_title = [], md_slug = ''b'',
     md_short_description = [], md_description = [], md_tags = [], md_info = [],
     md_price = ''Free'', md_platforms = [], md_rating = None, md_rating_count = None,
     md_cover_image = None, md_screenshots = []\<rparr>"

definition trace_a :: "event list" where
  "trace_a =
     [Get ''https://dev.itch.io/a'', Mkdir [''out'', ''a''], Mkdir [''out'', ''a'', ''images''],
      Get ''https://img.itch.zone/a/cover.png?x=1'',
      Warning ''https://img.itch.zone/a/cover.png?x=1'',
      Get ''https://img.itch.zone/a/s0.gif'', Mkdir [''out'', ''a'', ''images''],
      WriteBytes [''out'', ''a'', ''images'', ''screenshot_0.gif''] ''GIF'',
      Get ''https://img.itch.zone/a/download'', Warning ''https://img.itch.zone/a/download'',
      WriteText [''out'', ''a'', ''metadata.json''] (metadata_json md_a),
      Progress ''Game A'']"

definition trace_b :: "event list" where
  "trace_b =
     [Get ''https://dev.itch.io/b'', Mkdir [''out'', ''b''], Mkdir [''out'', ''b'', ''images''],
      WriteText [''out'', ''b'', ''metadata.json''] (metadata_json md_b),
      Progress ''b'']"

definition trace_dev :: "event list" where
  "trace_dev =
     [Mkdir [''out''], Get ''https://dev.itch.io'', Get ''https://dev.itch.io?page=2'',
      Progress ''__total__2''] @ trace_a @ trace_b @
     [WriteText [''out'', ''index.json''] (index_json ''dev'' [md_a, md_b])]"

definition trace_broken :: "event list" where
  "trace_broken =
     [Mkdir [''out''], Get ''https://broken.itch.io'', Progress ''__total__2''] @ trace_b @
     [Get ''https://broken.itch.io/x'']"

section \<open>Reading a listing\<close>

text \<open>The non-empty \<open>href\<close> values of a list of link elements, in order.\<close>

definition hrefs :: "tag list \<Rightarrow> string list" where
  "hrefs cells = map the (filter truthy (map (\<lambda>a. tag_get a ''href'') cells))"

text \<open>
  What listing page \<open>p\<close> of a site holds: whether its fetch succeeds, the links it shows,
  and whether it has a next-page link.
\<close>

definition page_ok :: "env \<Rightarrow> string \<Rightarrow> nat \<Rightarrow> bool" where
  "page_ok e base p =
     (case http e (page_url base p) of
        None \<Rightarrow> False
      | Some resp \<Rightarrow> 200 \<le> status resp \<and> status resp < 300)"

definition page_links :: "env \<Rightarrow> string \<Rightarrow> nat \<Rightarrow> string list" where
  "page_links e base p =
     (case http e (page_url base p) of
        None \<Rightarrow> []
      | Some resp \<Rightarrow> hrefs (listing_cells (parse e (content resp))))"

definition page_has_next :: "env \<Rightarrow> string \<Rightarrow> nat \<Rightarrow> bool" where
  "page_has_next e base p =
     (case http e (page_url base p) of
        None \<Rightarrow> False
      | Some resp \<Rightarrow> select_one (parse e (content resp)) ''a.next_page'' \<noteq> None)"

text \<open>Adding links to a list in order, each only if it is not in the list yet.\<close>

fun add_new :: "string list \<Rightarrow> string list \<Rightarrow> string list" where
  "add_new urls [] = urls"
| "add_new urls (h # hs) = (if h \<in> set urls then add_new urls hs else add_new (urls @ [h]) hs)"

definition creator_base :: "string \<Rightarrow> string" where
  "creator_base creator = ''https://'' @ creator @ ''.itch.io''"

text \<open>
  \<open>paginated e base p urls k\<close>: starting at page \<open>p\<close> with the links \<open>urls\<close>, pages \<open>p\<close> to
  \<open>p + k\<close> can be fetched, each of them before the last has a next-page link and a link
  not seen before it, and the last one lacks one of the two.
\<close>

definition paginated :: "env \<Rightarrow> string \<Rightarrow> nat \<Rightarrow> string list \<Rightarrow> nat \<Rightarrow> bool" where
  "paginated e base p urls k \<longleftrightarrow>
     (\<forall>q. p \<le> q \<and> q \<le> p + k \<longrightarrow> page_ok e base q) \<and>
     (\<forall>q. p \<le> q \<and> q < p + k \<longrightarrow>
        page_has_next e base q \<and>
        \<not> set (page_links e base q) \<subseteq> set urls \<union> (\<Union>q'\<in>{p..<q}. set (page_links e base q'))) \<and>
     (\<not> page_has_next e base (p + k) \<or>
        set (page_links e base (p + k)) \<subseteq>
          set urls \<union> (\<Union>q'\<in>{p..<p + k}. set (page_links e base q')))"

section \<open>Reading the downloads\<close>

text \<open>The URLs requested in a trace, in order.\<close>

fun requests_of :: "event list \<Rightarrow> string list" where
  "requests_of [] = []"
| "requests_of (Get url # evs) = url # requests_of evs"
| "requests_of (ev # evs) = requests_of evs"

text \<open>
  An asset can be downloaded when its own request answers with a 2xx status, the parent
  directory of its file can be made and the file can be written.
\<close>

definition downloadable :: "env \<Rightarrow> string \<Rightarrow> path \<Rightarrow> bool" where
  "downloadable e url dest \<longleftrightarrow>
     (\<exists>resp. http e url = Some resp \<and> 200 \<le> status resp \<and> status resp < 300) \<and>
     mkdir_ok e (parent dest) \<and> write_ok e dest"

section \<open>Properties of the string helpers\<close>

lemma split_not_Nil: "split c s \<noteq> []"
  by (induction s) (auto split: list.splits)

lemma hd_split: "hd (split c s) = takeWhile (\<lambda>x. x \<noteq> c) s"
  by (induction s) (auto split: list.splits simp: split_not_Nil)

lemma length_split: "length (split c s) = Suc (length (filter (\<lambda>x. x = c) s))"
  by (induction s) (auto split: list.splits)

lemma split_no_sep: "c \<notin> set seg \<Longrightarrow> split c seg = [seg]"
  by (induction seg) auto

lemma last_split_append: "c \<notin> set seg \<Longrightarrow> last (split c (pre @ c # seg)) = seg"
proof (induction pre)
  case Nil
  then show ?case by (simp add: split_no_sep)
next
  case (Cons x pre)
  have "length (split c (pre @ c # seg)) \<ge> 2"
    by (simp add: length_split)
  then obtain p q ps where "split c (pre @ c # seg) = p # q # ps"
    by (metis Suc_le_length_iff numeral_2_eq_2)
  then show ?case using Cons by auto
qed

lemma takeWhile_rev_all: "c \<notin> set s \<Longrightarrow> takeWhile (\<lambda>x. x \<noteq> c) (rev s) = rev s"
  by (rule takeWhile_eq_all_conv [THEN iffD2]) auto

lemma last_rsplit1_append: "c \<notin> set seg \<Longrightarrow> last (rsplit1 c (pre @ c # seg)) = seg"
  by (simp add: rsplit1_def takeWhile_tail takeWhile_rev_all)

lemma last_rsplit1: "last (rsplit1 c s) = rev (takeWhile (\<lambda>x. x \<noteq> c) (rev s))"
  by (simp add: rsplit1_def takeWhile_rev_all)

lemma last_rsplit1_no_sep: "c \<notin> set seg \<Longrightarrow> last (rsplit1 c seg) = seg"
  by (simp add: rsplit1_def)

lemma last_split_dir:
  assumes "c \<notin> set seg" "dir = [] \<or> last dir = c"
  shows "last (split c (dir @ seg)) = seg"
proof (cases "dir = []")
  case True
  then show ?thesis using assms by (simp add: split_no_sep)
next
  case False
  then have "dir = butlast dir @ [c]" using assms by (metis append_butlast_last_id)
  then have e: "dir @ seg = butlast dir @ c # seg" by (metis append.assoc append_Cons append_Nil)
  show ?thesis by (subst e) (rule last_split_append [OF assms(1)])
qed

lemma takeWhile_query:
  assumes "c \<notin> set path" "query = [] \<or> hd query = c"
  shows "takeWhile (\<lambda>x. x \<noteq> c) (path @ query) = path"
  using assms by (cases query) (auto simp: takeWhile_append)

lemma url_decomposition:
  "\<exists>dir seg query. url = dir @ seg @ query \<and> (dir = [] \<or> last dir = CHR ''/'') \<and>
     (query = [] \<or> hd query = CHR ''?'') \<and> CHR ''?'' \<notin> set (dir @ seg) \<and> CHR ''/'' \<notin> set seg"
proof -
  define path where "path = takeWhile (\<lambda>x. x \<noteq> CHR ''?'') url"
  define query where "query = dropWhile (\<lambda>x. x \<noteq> CHR ''?'') url"
  define seg where "seg = rev (takeWhile (\<lambda>x. x \<noteq> CHR ''/'') (rev path))"
  define dir where "dir = rev (dropWhile (\<lambda>x. x \<noteq> CHR ''/'') (rev path))"
  have 1: "url = path @ query" by (simp add: path_def query_def)
  have "rev path = rev seg @ rev dir"
    by (simp add: dir_def seg_def)
  then have 2: "path = dir @ seg"
    by (metis rev_append rev_rev_ident)
  have 3: "query = [] \<or> hd query = CHR ''?''"
    using hd_dropWhile [of "\<lambda>x. x \<noteq> CHR ''?''" url] by (auto simp: query_def)
  have 4: "CHR ''?'' \<notin> set path"
    using set_takeWhileD [of "CHR ''?''" "\<lambda>x. x \<noteq> CHR ''?''" url] by (auto simp: path_def)
  have 5: "CHR ''/'' \<notin> set seg"
    using set_takeWhileD [of "CHR ''/''" "\<lambda>x. x \<noteq> CHR ''/''" "rev path"] by (auto simp: seg_def)
  have 6: "dir = [] \<or> last dir = CHR ''/''"
    using hd_dropWhile [of "\<lambda>x. x \<noteq> CHR ''/''" "rev path"] by (auto simp: dir_def last_rev)
  show ?thesis
    apply (rule exI [of _ dir], rule exI [of _ seg], rule exI [of _ query])
    using 1 2 3 4 5 6 by simp
qed

text \<open>
  C8. Write a URL as a directory part that is empty or ends in \<open>/\<close>, a final segment
  without \<open>/\<close>, and a query that is empty or starts at the first \<open>?\<close>. The extension
  is \<open>.jpg\<close> when the final segment has no dot, and otherwise the dot followed by the
  segment's text after its last dot. Every URL has such a reading (\<open>url_decomposition\<close>).
\<close>

theorem ext_from_url_final_segment:
  assumes "url = dir @ seg @ query"
    and "dir = [] \<or> last dir = CHR ''/''"
    and "query = [] \<or> hd query = CHR ''?''"
    and "CHR ''?'' \<notin> set (dir @ seg)"
    and "CHR ''/'' \<notin> set seg"
  shows "(CHR ''.'' \<notin> set seg \<longrightarrow> ext_from_url url = ''.jpg'') \<and>
         (\<forall>stem ext. seg = stem @ ''.'' @ ext \<and> CHR ''.'' \<notin> set ext
             \<longrightarrow> ext_from_url url = ''.'' @ ext)"
proof -
  have path: "hd (split CHR ''?'' url) = dir @ seg"
    using takeWhile_query [OF assms(4) assms(3)] assms(1) by (simp add: hd_split)
  have seg: "last (split CHR ''/'' (dir @ seg)) = seg"
    by (rule last_split_dir [OF assms(5) assms(2)])
  have eq: "ext_from_url url =
      (if CHR ''.'' \<in> set seg then ''.'' @ last (rsplit1 CHR ''.'' seg) else ''.jpg'')"
    by (simp add: ext_from_url_def path seg)
  have "ext_from_url url = ''.'' @ ext" if "seg = stem @ ''.'' @ ext" "CHR ''.'' \<notin> set ext"
    for stem ext
    using that last_rsplit1_append [of "CHR ''.''" ext stem] by (simp add: eq)
  then show ?thesis by (simp add: eq)
qed

theorem ext_from_url_final_segment_witness:
  "ext_from_url ''https://img.itch.zone/aW1n/1/download'' = ''.jpg'' \<and>
   ''cover'' @ ext_from_url ''https://img.itch.zone/aW1n/1/download'' = ''cover.jpg'' \<and>
   ext_from_url ''https://img.itch.zone/aW1n/1/shot.final.png?w=2&p=a/b.gif'' = ''.png''"
  using ext_from_url_final_segment [of "''https://img.itch.zone/aW1n/1/download''"
      "''https://img.itch.zone/aW1n/1/''" "''download''" "[]"]
    ext_from_url_final_segment [of "''https://img.itch.zone/aW1n/1/shot.final.png?w=2&p=a/b.gif''"
      "''https://img.itch.zone/aW1n/1/''" "''shot.final.png''" "''?w=2&p=a/b.gif''"]
  by simp

section \<open>Properties of the job callback\<close>

lemma replace_without_first: "c \<notin> set s \<Longrightarrow> replace (c # p) new s = s"
  by (induction s) (auto simp: startswith_def)

lemma replace_at_prefix: "old \<noteq> [] \<Longrightarrow> replace old new (old @ s) = new @ replace old new s"
  by (cases old) (simp_all add: startswith_def)

lemma digit_cases: "d < 10 \<Longrightarrow> d \<in> {0, 1, 2, 3, 4, 5, 6, 7, 8, 9 :: nat}"
  by auto

lemma digit_val_digit_chr: "d < 10 \<Longrightarrow> digit_val (digit_chr d) = d"
  using digit_cases [of d] by (auto simp: digit_val_def digit_chr_def)

lemma isdigit_digit_chr: "d < 10 \<Longrightarrow> isdigit (digit_chr d)"
  using digit_cases [of d] by (auto simp: isdigit_def digit_chr_def)

lemma str_nat_not_Nil: "str_nat n \<noteq> []"
  by (subst str_nat.simps) simp

lemma str_nat_isdigit: "c \<in> set (str_nat n) \<Longrightarrow> isdigit c"
proof (induction n rule: str_nat.induct)
  case (1 n)
  show ?case
  proof (cases "n < 10")
    case True
    with "1.prems" show ?thesis by (subst (asm) str_nat.simps) (simp add: isdigit_digit_chr)
  next
    case False
    with "1.prems" have "c \<in> set (str_nat (n div 10)) \<or> c = digit_chr (n mod 10)"
      by (subst (asm) str_nat.simps) auto
    then show ?thesis using "1.IH" False by (auto simp: isdigit_digit_chr)
  qed
qed

lemma isdigit_not_underscore: "isdigit c \<Longrightarrow> c \<noteq> CHR ''_''"
  by (auto simp: isdigit_def)

lemma isdigit_not_sign: "isdigit c \<Longrightarrow> c \<noteq> CHR ''-'' \<and> c \<noteq> CHR ''+''"
  by (auto simp: isdigit_def)

lemma isdigit_not_space: "isdigit c \<Longrightarrow> \<not> int_space c"
  by (auto simp: isdigit_def int_space_def)

lemma int_digits_all_digits:
  "ds \<noteq> [] \<Longrightarrow> \<forall>c\<in>set ds. isdigit c \<Longrightarrow>
     int_digits acc ds = Some (foldl (\<lambda>a c. a * 10 + digit_val c) acc ds)"
  by (induction acc ds rule: int_digits.induct) (auto simp: isdigit_not_underscore)

lemma foldl_str_nat: "foldl (\<lambda>a c. a * 10 + digit_val c) 0 (str_nat n) = n"
proof (induction n rule: str_nat.induct)
  case (1 n)
  show ?case
  proof (cases "n < 10")
    case True
    then show ?thesis by (subst str_nat.simps) (simp add: digit_val_digit_chr)
  next
    case False
    then show ?thesis using "1.IH" by (subst str_nat.simps) (simp add: digit_val_digit_chr)
  qed
qed

lemma dropWhile_none: "\<forall>c\<in>set s. \<not> P c \<Longrightarrow> dropWhile P s = s"
  by (cases s) auto

lemma int_strip_no_space:
  "\<forall>c\<in>set s. \<not> int_space c \<Longrightarrow> rev (dropWhile int_space (rev (dropWhile int_space s))) = s"
  by (simp add: dropWhile_none)

text \<open>Reading back a number that \<open>str\<close> printed gives the number.\<close>

lemma py_int_str_nat: "py_int (str_nat n) = Some (int n)"
proof -
  have d: "\<forall>c\<in>set (str_nat n). isdigit c" by (simp add: str_nat_isdigit)
  then have s: "rev (dropWhile int_space (rev (dropWhile int_space (str_nat n)))) = str_nat n"
    by (intro int_strip_no_space) (simp add: isdigit_not_space)
  obtain c cs where c: "str_nat n = c # cs" using str_nat_not_Nil [of n] by (cases "str_nat n") auto
  then have "isdigit c" using d by simp
  then have ns: "c \<noteq> CHR ''-''" "c \<noteq> CHR ''+''" using isdigit_not_sign by auto
  have "int_digits 0 (c # cs) = Some n"
    using int_digits_all_digits [of "str_nat n" 0] d foldl_str_nat [of n] c by simp
  moreover have "py_int (str_nat n) =
      (if c = CHR ''-'' then map_option (\<lambda>n. - int n) (int_digits 0 cs)
       else if c = CHR ''+'' then map_option int (int_digits 0 cs)
       else map_option int (int_digits 0 (c # cs)))"
    unfolding py_int_def s by (simp add: c)
  ultimately show ?thesis using ns by simp
qed

lemma total_marker_parses:
  "py_int (replace ''__total__'' [] (''__total__'' @ str_nat n)) = Some (int n)"
proof -
  have "CHR ''_'' \<notin> set (str_nat n)" using str_nat_isdigit isdigit_not_underscore by blast
  then have "replace ''__total__'' [] (str_nat n) = str_nat n"
    by (simp add: replace_without_first)
  then have "replace ''__total__'' [] (''__total__'' @ str_nat n) = str_nat n"
    using replace_at_prefix [of "''__total__''" "[]" "str_nat n"] by simp
  then show ?thesis by (simp only: py_int_str_nat)
qed




lemma py_int_spaces: "py_int [CHR 0x20, CHR ''5'', CHR 0x0A] = Some 5"
  by (simp add: py_int_def int_space_def isdigit_def digit_val_def)




section \<open>Properties of the effects\<close>

lemma bnd_Inr:
  "bnd m f w = (Inr y, w') \<longleftrightarrow> (\<exists>x w1. m w = (Inr x, w1) \<and> f x w1 = (Inr y, w'))"
  by (auto simp: bnd_def split: sum.splits prod.splits)

lemma bnd_Inl:
  "bnd m f w = (Inl exn, w') \<longleftrightarrow>
     m w = (Inl exn, w') \<or> (\<exists>x w1. m w = (Inr x, w1) \<and> f x w1 = (Inl exn, w'))"
  by (auto simp: bnd_def split: sum.splits prod.splits)

lemma ret_Inr: "ret x w = (Inr y, w') \<longleftrightarrow> y = x \<and> w' = w"
  by (auto simp: ret_def)

lemma lift_Inr: "lift r w = (Inr x, w') \<longleftrightarrow> r = Inr x \<and> w' = w"
  by (auto simp: lift_def)

lemma emit_eq: "emit ev w = (r, w') \<longleftrightarrow> r = Inr () \<and> w' = w\<lparr>trace := trace w @ [ev]\<rparr>"
  by (auto simp: emit_def)

lemma client_get_Inr:
  "client_get e url w = (Inr resp, w') \<longleftrightarrow>
     http e url = Some resp \<and> w' = w\<lparr>trace := trace w @ [Get url]\<rparr>"
  by (auto simp: client_get_def bnd_def emit_def ret_def raise_def split: option.splits)

lemma raise_for_status_Inr:
  "raise_for_status resp w = (Inr u, w') \<longleftrightarrow> 200 \<le> status resp \<and> status resp < 300 \<and> w' = w"
  by (auto simp: raise_for_status_def ret_def raise_def)

lemma fetch_Inr:
  "fetch e url w = (Inr resp, w') \<longleftrightarrow>
     http e url = Some resp \<and> 200 \<le> status resp \<and> status resp < 300 \<and>
     w' = w\<lparr>trace := trace w @ [Get url]\<rparr>"
  by (auto simp: fetch_def bnd_Inr client_get_Inr raise_for_status_Inr ret_Inr)

lemma mkdir_Inr:
  "mkdir e p w = (Inr u, w') \<longleftrightarrow> mkdir_ok e p \<and> w' = w\<lparr>trace := trace w @ [Mkdir p]\<rparr>"
  by (auto simp: mkdir_def emit_def raise_def)

lemma write_text_Inr:
  "write_text e p j w = (Inr u, w') \<longleftrightarrow>
     write_ok e p \<and> w' = w\<lparr>trace := trace w @ [WriteText p j]\<rparr>"
  by (auto simp: write_text_def emit_def raise_def)

lemma write_bytes_Inr:
  "write_bytes e p c w = (Inr u, w') \<longleftrightarrow>
     write_ok e p \<and> w' = w\<lparr>trace := trace w @ [WriteBytes p c]\<rparr>"
  by (auto simp: write_bytes_def emit_def raise_def)

lemma call_progress_Inr:
  "call_progress cb msg w = (Inr u, w') \<longleftrightarrow>
     (case cb of
        None \<Rightarrow> w' = w
      | Some f \<Rightarrow> \<exists>s'. f msg (sink w) = (Inr (), s') \<and>
                      w' = w\<lparr>trace := trace w @ [Progress msg], sink := s'\<rparr>)"
  by (cases cb) (auto simp: call_progress_def bnd_def emit_def ret_def split: prod.splits sum.splits)

text \<open>
  C7. \<^verbatim>\<open>_download_file\<close> never raises: it always returns a boolean. The boolean is true
  exactly when the request answered with a 2xx status, the parent directory could be made
  and the file could be written; the trace then gains the request, the parent directory
  and the write of the whole content. Otherwise it is false, nothing is written, and a
  warning is logged. The listener's state is untouched.
\<close>

theorem download_file_never_raises:
  "\<exists>b w'. download_file e url dest w = (Inr b, w') \<and> sink w' = sink w \<and>
     (b \<longleftrightarrow> (\<exists>resp. http e url = Some resp \<and> 200 \<le> status resp \<and> status resp < 300) \<and>
            mkdir_ok e (parent dest) \<and> write_ok e dest) \<and>
     (b \<longrightarrow> trace w' = trace w @
               [Get url, Mkdir (parent dest), WriteBytes dest (content (the (http e url)))]) \<and>
     (\<not> b \<longrightarrow> trace w' = trace w @ [Get url, Warning url] \<or>
             trace w' = trace w @ [Get url, Mkdir (parent dest), Warning url])"
  by (auto simp: download_file_def download_body_def client_get_def raise_for_status_def
      mkdir_def write_bytes_def bnd_def emit_def ret_def raise_def split: option.splits)

theorem download_file_never_raises_witness:
  "download_file demo ''https://img.itch.zone/a/s0.gif'' [''out'', ''a'', ''images'', ''screenshot_0.gif''] w0
     = (Inr True, w0\<lparr>trace := [Get ''https://img.itch.zone/a/s0.gif'', Mkdir [''out'', ''a'', ''images''],
          WriteBytes [''out'', ''a'', ''images'', ''screenshot_0.gif''] ''GIF'']\<rparr>) \<and>
   download_file demo ''https://img.itch.zone/a/download'' [''out'', ''a'', ''images'', ''screenshot_1.jpg''] w0
     = (Inr False, w0\<lparr>trace := [Get ''https://img.itch.zone/a/download'',
          Warning ''https://img.itch.zone/a/download'']\<rparr>)"
  using download_file_never_raises [of demo "''https://img.itch.zone/a/s0.gif''"
      "[''out'', ''a'', ''images'', ''screenshot_0.gif'']" w0]
    download_file_never_raises [of demo "''https://img.itch.zone/a/download''"
      "[''out'', ''a'', ''images'', ''screenshot_1.jpg'']" w0]
  by (simp add: download_file_def download_body_def client_get_def raise_for_status_def
      mkdir_def write_bytes_def bnd_def emit_def ret_def raise_def demo_def w0_def parent_def)

section \<open>Runs only append to the trace\<close>

lemma extendsI:
  "(\<And>w r w'. m w = (r, w') \<Longrightarrow> \<exists>evs. trace w' = trace w @ evs \<and> list_all P evs) \<Longrightarrow> extends P m"
  by (auto simp: extends_def)

lemma extendsD:
  "extends P m \<Longrightarrow> m w = (r, w') \<Longrightarrow> \<exists>evs. trace w' = trace w @ evs \<and> list_all P evs"
  by (auto simp: extends_def)

lemma extends_mono: "extends P m \<Longrightarrow> (\<And>ev. P ev \<Longrightarrow> Q ev) \<Longrightarrow> extends Q m"
  unfolding extends_def by (meson list.pred_mono_strong)

lemma extends_ret: "extends P (ret x)"
  by (auto simp: extends_def ret_def)

lemma extends_raise: "extends P (raise exn)"
  by (auto simp: extends_def raise_def)

lemma extends_lift: "extends P (lift r)"
  by (auto simp: extends_def lift_def)

lemma extends_emit: "P ev \<Longrightarrow> extends P (emit ev)"
  by (auto simp: extends_def emit_def)

lemma extends_bnd:
  assumes "extends P m" and "\<And>x. extends P (f x)"
  shows "extends P (bnd m f)"
proof (rule extendsI)
  fix w r w'
  assume run: "bnd m f w = (r, w')"
  obtain r1 w1 where m: "m w = (r1, w1)" by (cases "m w")
  then obtain evs1 where e1: "trace w1 = trace w @ evs1" "list_all P evs1"
    using extendsD [OF assms(1)] by blast
  show "\<exists>evs. trace w' = trace w @ evs \<and> list_all P evs"
  proof (cases r1)
    case (Inl exn)
    then have "w' = w1" using run m by (simp add: bnd_def)
    then show ?thesis using e1 by blast
  next
    case (Inr x)
    then have "f x w1 = (r, w')" using run m by (simp add: bnd_def)
    then obtain evs2 where "trace w' = trace w1 @ evs2" "list_all P evs2"
      using extendsD [OF assms(2)] by blast
    then have "trace w' = trace w @ (evs1 @ evs2) \<and> list_all P (evs1 @ evs2)"
      using e1 by simp
    then show ?thesis by blast
  qed
qed

lemma extends_client_get: "P (Get url) \<Longrightarrow> extends P (client_get e url)"
  unfolding client_get_def
  by (intro extends_bnd extends_emit) (auto split: option.splits intro: extends_raise extends_ret)

lemma extends_raise_for_status: "extends P (raise_for_status resp)"
  by (simp add: raise_for_status_def extends_ret extends_raise)

lemma extends_fetch: "P (Get url) \<Longrightarrow> extends P (fetch e url)"
  unfolding fetch_def
  by (intro extends_bnd extends_client_get extends_raise_for_status extends_ret)

lemma extends_mkdir: "P (Mkdir p) \<Longrightarrow> extends P (mkdir e p)"
  by (simp add: mkdir_def extends_emit extends_raise)

lemma extends_write_bytes: "P (WriteBytes p c) \<Longrightarrow> extends P (write_bytes e p c)"
  by (simp add: write_bytes_def extends_emit extends_raise)

lemma extends_write_text: "P (WriteText p j) \<Longrightarrow> extends P (write_text e p j)"
  by (simp add: write_text_def extends_emit extends_raise)

lemma extends_call_progress: "P (Progress msg) \<Longrightarrow> extends P (call_progress cb msg)"
  by (cases cb)
    (auto simp: call_progress_def extends_def ret_def bnd_def emit_def split: prod.splits)

lemma download_file_asset:
  "download_file e url dest w = (r, w') \<Longrightarrow>
     (\<exists>b. r = Inr b) \<and> sink w' = sink w \<and> (\<exists>evs. trace w' = trace w @ evs \<and> list_all is_asset evs)"
  by (auto simp: download_file_def download_body_def client_get_def raise_for_status_def
      mkdir_def write_bytes_def bnd_def emit_def ret_def raise_def split: option.splits if_splits)

lemma download_all_asset:
  "download_all e tasks w = (r, w') \<Longrightarrow>
     r = Inr () \<and> sink w' = sink w \<and> (\<exists>evs. trace w' = trace w @ evs \<and> list_all is_asset evs)"
proof (induction tasks arbitrary: w)
  case Nil
  then show ?case by (simp add: ret_def)
next
  case (Cons t tasks)
  obtain label img_url dest where t: "t = (label, img_url, dest)" by (cases t)
  obtain r1 w1 where d: "download_file e img_url dest w = (r1, w1)"
    by (cases "download_file e img_url dest w")
  from download_file_asset [OF d] obtain b evs1 where
    1: "r1 = Inr b" "sink w1 = sink w" "trace w1 = trace w @ evs1" "list_all is_asset evs1"
    by blast
  have "download_all e tasks w1 = (r, w')"
    using Cons.prems t d 1 by (simp add: bnd_def)
  from Cons.IH [OF this] obtain evs2 where
    2: "r = Inr ()" "sink w' = sink w1" "trace w' = trace w1 @ evs2" "list_all is_asset evs2"
    by blast
  have "trace w' = trace w @ (evs1 @ evs2) \<and> list_all is_asset (evs1 @ evs2)"
    using 1 2 by simp
  then show ?case using 1 2 by metis
qed

lemma extends_download_all: "(\<And>ev. is_asset ev \<Longrightarrow> P ev) \<Longrightarrow> extends P (download_all e tasks)"
  by (rule extends_mono [of is_asset]) (auto intro!: extendsI dest: download_all_asset)

lemma extends_scrape_project:
  assumes "\<And>ev. is_asset ev \<Longrightarrow> P ev"
    and "\<And>j. P (WriteText (path_div (path_div base_dir (slug_of url)) ''metadata.json'') j)"
    and "\<And>msg. P (Progress msg)"
  shows "extends P (scrape_project e url base_dir cb)"
  unfolding scrape_project_def Let_def
  by (intro extends_bnd extends_fetch extends_lift extends_mkdir extends_download_all
      extends_write_text extends_call_progress extends_ret assms)
    (auto simp: assms split: prod.splits intro!: extends_bnd extends_fetch extends_lift extends_mkdir extends_download_all
      extends_write_text extends_call_progress extends_ret assms)

text \<open>What a successful run of \<open>scrape_project\<close> has done and returns.\<close>

lemma scrape_project_Inr:
  assumes "scrape_project e url base_dir cb w = (Inr md, w')"
  shows "\<exists>resp evs cover_url.
    http e url = Some resp \<and> 200 \<le> status resp \<and> status resp < 300 \<and>
    extract_title (parse e (content resp)) url = Inr (md_title md) \<and>
    extract_rating (parse e (content resp)) = Inr (md_rating md, md_rating_count md) \<and>
    extract_cover_url (parse e (content resp)) = Inr cover_url \<and>
    md_url md = url \<and> md_slug md = slug_of url \<and>
    md_cover_image md =
      (if truthy cover_url then Some (''images/cover'' @ ext_from_url (the cover_url)) else None) \<and>
    md_screenshots md =
      map (\<lambda>(i, surl). ''images/screenshot_'' @ str_nat i @ ext_from_url surl)
        (enumerate (extract_screenshot_urls (parse e (content resp)))) \<and>
    list_all is_asset evs \<and>
    trace w' = trace w @ evs @
      [WriteText (path_div (path_div base_dir (slug_of url)) ''metadata.json'') (metadata_json md)] @
      (case cb of None \<Rightarrow> [] | Some f \<Rightarrow> [Progress (done_message md)])"
proof -
  from assms obtain resp title rating rating_count cover_url w1 w2 w3 w4 w5 where
    f: "fetch e url w = (Inr resp, w1)"
    and t: "extract_title (parse e (content resp)) url = Inr title"
    and m1: "mkdir e (path_div base_dir (slug_of url)) w1 = (Inr (), w2)"
    and r: "extract_rating (parse e (content resp)) = Inr (rating, rating_count)"
    and m2: "mkdir e (path_div (path_div base_dir (slug_of url)) ''images'') w2 = (Inr (), w3)"
    and c: "extract_cover_url (parse e (content resp)) = Inr cover_url"
    and d: "download_all e
        ((if truthy cover_url
          then [(''cover'', the cover_url,
                 path_div (path_div (path_div base_dir (slug_of url)) ''images'')
                   (''cover'' @ ext_from_url (the cover_url)))]
          else []) @
         map (\<lambda>(i, surl).
                (''screenshot_'' @ str_nat i, surl,
                 path_div (path_div (path_div base_dir (slug_of url)) ''images'')
                   (''screenshot_'' @ str_nat i @ ext_from_url surl)))
           (enumerate (extract_screenshot_urls (parse e (content resp))))) w3 = (Inr (), w4)"
    and wt: "write_text e (path_div (path_div base_dir (slug_of url)) ''metadata.json'')
        (metadata_json md) w4 = (Inr (), w5)"
    and cp: "call_progress cb (if title \<noteq> [] then title else slug_of url) w5 = (Inr (), w')"
    and md: "md = \<lparr>md_url = url, md_title = title, md_slug = slug_of url,
            md_short_description = extract_short_text (parse e (content resp)),
            md_description = extract_description (parse e (content resp)),
            md_tags = extract_tags (parse e (content resp)),
            md_info = extract_info (parse e (content resp)),
            md_price = extract_price (parse e (content resp)),
            md_platforms = extract_platforms (parse e (content resp)),
            md_rating = rating, md_rating_count = rating_count,
            md_cover_image =
              (if truthy cover_url then Some (''images/cover'' @ ext_from_url (the cover_url))
               else None),
            md_screenshots =
              map (\<lambda>(i, surl). ''images/screenshot_'' @ str_nat i @ ext_from_url surl)
                (enumerate (extract_screenshot_urls (parse e (content resp))))\<rparr>"
    unfolding scrape_project_def Let_def
    by (auto simp: bnd_Inr lift_Inr ret_Inr split: prod.splits)
  from download_all_asset [OF d] obtain evs where
    ev: "trace w4 = trace w3 @ evs" "list_all is_asset evs" by blast
  have http: "http e url = Some resp" "200 \<le> status resp" "status resp < 300"
    and w1: "w1 = w\<lparr>trace := trace w @ [Get url]\<rparr>"
    using f by (auto simp: fetch_Inr)
  have w2: "w2 = w1\<lparr>trace := trace w1 @ [Mkdir (path_div base_dir (slug_of url))]\<rparr>"
    using m1 by (simp add: mkdir_Inr)
  have w3: "w3 = w2\<lparr>trace := trace w2 @ [Mkdir (path_div (path_div base_dir (slug_of url)) ''images'')]\<rparr>"
    using m2 by (simp add: mkdir_Inr)
  have w5: "w5 = w4\<lparr>trace := trace w4 @
      [WriteText (path_div (path_div base_dir (slug_of url)) ''metadata.json'') (metadata_json md)]\<rparr>"
    using wt by (simp add: write_text_Inr)
  have msg: "(if title \<noteq> [] then title else slug_of url) = done_message md"
    by (simp add: done_message_def md)
  have w': "trace w' = trace w5 @ (case cb of None \<Rightarrow> [] | Some f \<Rightarrow> [Progress (done_message md)])"
    using cp unfolding msg by (cases cb) (auto simp: call_progress_Inr)
  let ?evs = "[Get url, Mkdir (path_div base_dir (slug_of url)),
               Mkdir (path_div (path_div base_dir (slug_of url)) ''images'')] @ evs"
  have "list_all is_asset ?evs" using ev by simp
  moreover have "trace w' = trace w @ ?evs @
      [WriteText (path_div (path_div base_dir (slug_of url)) ''metadata.json'') (metadata_json md)] @
      (case cb of None \<Rightarrow> [] | Some f \<Rightarrow> [Progress (done_message md)])"
    using w' w5 ev w3 w2 w1 by simp
  ultimately show ?thesis
    using http t r c by (intro exI [of _ resp] exI [of _ ?evs] exI [of _ cover_url]) (simp add: md)
qed

section \<open>The example site, evaluated\<close>

lemmas prog_defs = fetch_def client_get_def raise_for_status_def mkdir_def write_bytes_def
  write_text_def call_progress_def download_file_def download_body_def
  bnd_def emit_def ret_def raise_def lift_def

lemmas extract_defs = extract_title_def extract_description_def extract_short_text_def
  extract_tags_def extract_info_def extract_price_def extract_platforms_def
  extract_rating_def extract_cover_url_def extract_screenshot_urls_def
  select_one_def tag_get_def getitem_def truthy_def py_or_def

lemma str_nat_0: "str_nat 0 = ''0''" by (simp add: str_nat.simps digit_chr_def)
lemma str_nat_1: "str_nat (Suc 0) = ''1''" by (simp add: str_nat.simps digit_chr_def)
lemma str_nat_2: "str_nat 2 = ''2''" by (simp add: str_nat.simps digit_chr_def)

lemma clean_Game_A: "clean (Some ''  Game   A '') = ''Game A''"
  by (simp add: clean_def strip_def isspace_def)

lemma ext_cover_a: "ext_from_url ''https://img.itch.zone/a/cover.png?x=1'' = ''.png''"
  by (simp add: ext_from_url_def rsplit1_def)
lemma ext_s0: "ext_from_url ''https://img.itch.zone/a/s0.gif'' = ''.gif''"
  by (simp add: ext_from_url_def rsplit1_def)
lemma ext_download: "ext_from_url ''https://img.itch.zone/a/download'' = ''.jpg''"
  by (simp add: ext_from_url_def rsplit1_def)

lemma demo_http:
  "http demo ''https://dev.itch.io/a'' = Some \<lparr>status = 200, content = ''PA''\<rparr>"
  "http demo ''https://dev.itch.io/b'' = Some \<lparr>status = 200, content = ''PB''\<rparr>"
  "http demo ''https://dev.itch.io/c'' = Some \<lparr>status = 200, content = ''PC''\<rparr>"
  "http demo ''https://img.itch.zone/a/cover.png?x=1'' = None"
  "http demo ''https://img.itch.zone/a/s0.gif'' = Some \<lparr>status = 200, content = ''GIF''\<rparr>"
  "http demo ''https://img.itch.zone/a/download'' = Some \<lparr>status = 404, content = []\<rparr>"
  "http demo ''https://dev.itch.io'' = Some \<lparr>status = 200, content = ''L1''\<rparr>"
  "http demo ''https://dev.itch.io?page=2'' = Some \<lparr>status = 200, content = ''L2''\<rparr>"
  "http demo ''https://nobody.itch.io'' = Some \<lparr>status = 200, content = ''L0''\<rparr>"
  "http demo ''https://broken.itch.io'' = Some \<lparr>status = 200, content = ''L3''\<rparr>"
  "http demo ''https://broken.itch.io/x'' = None"
  by (simp_all add: demo_def)

lemma demo_parse:
  "parse demo ''PA'' = page_a" "parse demo ''PB'' = page_b" "parse demo ''PC'' = page_c"
  "parse demo ''L1'' = listing1" "parse demo ''L2'' = listing2" "parse demo ''L0'' = listing_empty"
  "parse demo ''L3'' = listing_broken"
  by (simp_all add: demo_def)

lemma demo_ok: "mkdir_ok demo p" "write_ok demo p"
  by (simp_all add: demo_def)

lemma page_a_fields:
  "extract_title page_a ''https://dev.itch.io/a'' = Inr ''Game A''"
  "extract_description page_a = []" "extract_short_text page_a = []" "extract_tags page_a = []"
  "extract_info page_a = []" "extract_price page_a = ''Free''" "extract_platforms page_a = []"
  "extract_rating page_a = Inr (None, None)"
  "extract_cover_url page_a = Inr (Some ''https://img.itch.zone/a/cover.png?x=1'')"
  "extract_screenshot_urls page_a = [''https://img.itch.zone/a/s0.gif'', ''https://img.itch.zone/a/download'']"
  by (simp_all add: extract_defs page_a_def leaf_def clean_Game_A)

lemma page_b_fields:
  "extract_title page_b ''https://dev.itch.io/b'' = Inr []"
  "extract_description page_b = []" "extract_short_text page_b = []" "extract_tags page_b = []"
  "extract_info page_b = []" "extract_price page_b = ''Free''" "extract_platforms page_b = []"
  "extract_rating page_b = Inr (None, None)"
  "extract_cover_url page_b = Inr None"
  "extract_screenshot_urls page_b = []"
  by (simp_all add: extract_defs page_b_def leaf_def clean_def)

lemma slug_a: "slug_of ''https://dev.itch.io/a'' = ''a''" by (simp add: slug_of_def rsplit1_def rstrip_def)
lemma slug_b: "slug_of ''https://dev.itch.io/b'' = ''b''" by (simp add: slug_of_def rsplit1_def rstrip_def)
lemma slug_c: "slug_of ''https://dev.itch.io/c'' = ''c''" by (simp add: slug_of_def rsplit1_def rstrip_def)

lemma on_progress_Game_A: "on_progress ''Game A'' j = (Inr (), j\<lparr>progress := progress j @ [''Game A'']\<rparr>)"
  by (simp add: on_progress_def startswith_def)
lemma on_progress_b: "on_progress ''b'' j = (Inr (), j\<lparr>progress := progress j @ [''b'']\<rparr>)"
  by (simp add: on_progress_def startswith_def)

lemma demo_project_a:
  "scrape_project demo ''https://dev.itch.io/a'' [''out''] (Some on_progress) w =
     (Inr md_a, w\<lparr>trace := trace w @ trace_a,
                  sink := (sink w)\<lparr>progress := progress (sink w) @ [''Game A'']\<rparr>\<rparr>)"
  by (simp add: scrape_project_def Let_def prog_defs demo_http demo_parse demo_ok page_a_fields slug_a
      path_div_def parent_def enumerate_def upt_rec str_nat_0 str_nat_1 ext_cover_a ext_s0 ext_download truthy_def
      on_progress_Game_A md_a_def trace_a_def)

lemma demo_project_b:
  "scrape_project demo ''https://dev.itch.io/b'' [''out''] (Some on_progress) w =
     (Inr md_b, w\<lparr>trace := trace w @ trace_b,
                  sink := (sink w)\<lparr>progress := progress (sink w) @ [''b'']\<rparr>\<rparr>)"
  by (simp add: scrape_project_def Let_def prog_defs demo_http demo_parse demo_ok page_b_fields slug_b
      path_div_def parent_def enumerate_def truthy_def
      on_progress_b md_b_def trace_b_def)

section \<open>The title of a project\<close>

lemma last_rsplit1_dir:
  assumes "c \<notin> set seg" "dir = [] \<or> last dir = c"
  shows "last (rsplit1 c (dir @ seg)) = seg"
proof (cases "dir = []")
  case True
  then show ?thesis using assms by (simp add: last_rsplit1_no_sep)
next
  case False
  then have "dir = butlast dir @ [c]" using assms by (metis append_butlast_last_id)
  then have e: "dir @ seg = butlast dir @ c # seg" by (metis append.assoc append_Cons append_Nil)
  show ?thesis by (subst e) (rule last_rsplit1_append [OF assms(1)])
qed

lemma last_rsplit1_Nil: "last (rsplit1 c s) = [] \<longleftrightarrow> s = [] \<or> last s = c"
  by (auto simp: last_rsplit1 takeWhile_eq_Nil_iff hd_rev)

lemma extract_title_cases:
  "extract_title soup url = Inr t \<Longrightarrow>
     (clean (map_option get_text (select_one soup ''h1.game_title'')) \<noteq> [] \<and>
        t = clean (map_option get_text (select_one soup ''h1.game_title''))) \<or>
     (clean (map_option get_text (select_one soup ''h1.game_title'')) = [] \<and>
        (\<exists>og. select_one soup ''meta[property=\"og:title\"]'' = Some og \<and>
              tag_get og ''content'' = Some t)) \<or>
     (clean (map_option get_text (select_one soup ''h1.game_title'')) = [] \<and>
        select_one soup ''meta[property=\"og:title\"]'' = None \<and>
        t = last (rsplit1 CHR ''/'' url))"
  by (auto simp: extract_title_def Let_def getitem_def tag_get_def split: option.splits if_splits)

text \<open>
  C3, as stated, fails: project \<open>b\<close> of the example site has no heading and an \<open>og:title\<close>
  tag whose content is empty. Its title is the empty string although the last segment of
  its URL is \<open>b\<close>.
\<close>

theorem title_empty_counterexample:
  "map_sum id md_title (fst (scrape_project demo ''https://dev.itch.io/b'' [''out''] (Some on_progress) w0))
     = Inr [] \<and>
   last (rsplit1 CHR ''/'' ''https://dev.itch.io/b'') = ''b''"
  by (simp add: demo_project_b md_b_def rsplit1_def)

text \<open>
  C3, amended. The title of a scraped project is the cleaned heading when that is not
  empty; otherwise the \<open>content\<close> of the \<open>og:title\<close> tag when the tag is there, whatever
  it holds; otherwise the text after the last \<open>/\<close> of the URL. So the title is non-empty
  exactly when the cleaned heading is non-empty, or the tag is there with non-empty
  content, or there is no tag and the URL is non-empty and does not end in \<open>/\<close>.
\<close>

theorem title_fallback_chain:
  assumes "scrape_project e url base_dir cb w = (Inr md, w')"
  shows "\<exists>resp. http e url = Some resp \<and>
    (clean (map_option get_text (select_one (parse e (content resp)) ''h1.game_title'')) \<noteq> [] \<longrightarrow>
       md_title md = clean (map_option get_text (select_one (parse e (content resp)) ''h1.game_title''))) \<and>
    (clean (map_option get_text (select_one (parse e (content resp)) ''h1.game_title'')) = [] \<longrightarrow>
       (\<forall>og. select_one (parse e (content resp)) ''meta[property=\"og:title\"]'' = Some og \<longrightarrow>
             tag_get og ''content'' = Some (md_title md)) \<and>
       (select_one (parse e (content resp)) ''meta[property=\"og:title\"]'' = None \<longrightarrow>
          (\<forall>dir seg. url = dir @ seg \<and> (dir = [] \<or> last dir = CHR ''/'') \<and> CHR ''/'' \<notin> set seg
               \<longrightarrow> md_title md = seg))) \<and>
    (md_title md \<noteq> [] \<longleftrightarrow>
       clean (map_option get_text (select_one (parse e (content resp)) ''h1.game_title'')) \<noteq> [] \<or>
       (\<exists>og c. select_one (parse e (content resp)) ''meta[property=\"og:title\"]'' = Some og \<and>
              tag_get og ''content'' = Some c \<and> c \<noteq> []) \<or>
       (select_one (parse e (content resp)) ''meta[property=\"og:title\"]'' = None \<and>
          url \<noteq> [] \<and> last url \<noteq> CHR ''/''))"
proof -
  from scrape_project_Inr [OF assms] obtain resp where
    h: "http e url = Some resp"
    and t: "extract_title (parse e (content resp)) url = Inr (md_title md)"
    by blast
  let ?soup = "parse e (content resp)"
  let ?h = "clean (map_option get_text (select_one ?soup ''h1.game_title''))"
  let ?og = "select_one ?soup ''meta[property=\"og:title\"]''"
  have seg: "last (rsplit1 CHR ''/'' url) = seg"
    if "url = dir @ seg" "dir = [] \<or> last dir = CHR ''/''" "CHR ''/'' \<notin> set seg" for dir seg
    using that last_rsplit1_dir [of "CHR ''/''" seg dir] by simp
  note cases = extract_title_cases [OF t]
  have a: "?h \<noteq> [] \<longrightarrow> md_title md = ?h"
    using cases by blast
  have b: "?h = [] \<longrightarrow> (\<forall>og. ?og = Some og \<longrightarrow> tag_get og ''content'' = Some (md_title md))"
    using cases by force
  have c: "md_title md = last (rsplit1 CHR ''/'' url)" if "?h = []" "?og = None"
    using cases that by force
  have c': "?h = [] \<longrightarrow> (?og = None \<longrightarrow>
      (\<forall>dir seg. url = dir @ seg \<and> (dir = [] \<or> last dir = CHR ''/'') \<and> CHR ''/'' \<notin> set seg
           \<longrightarrow> md_title md = seg))"
    using c seg by metis
  have d: "md_title md \<noteq> [] \<longleftrightarrow>
       ?h \<noteq> [] \<or> (\<exists>og c. ?og = Some og \<and> tag_get og ''content'' = Some c \<and> c \<noteq> []) \<or>
       (?og = None \<and> url \<noteq> [] \<and> last url \<noteq> CHR ''/'')"
  proof (cases "?h = []")
    case False
    then show ?thesis using a by simp
  next
    case True
    show ?thesis
    proof (cases ?og)
      case None
      then show ?thesis
        using c [OF True None] True last_rsplit1_Nil [of "CHR ''/''" url] by simp
    next
      case (Some og)
      then show ?thesis using b True by simp
    qed
  qed
  show ?thesis
    using h a b c' d by (intro exI [of _ resp]) blast
qed

theorem title_fallback_chain_witness:
  "scrape_project demo ''https://dev.itch.io/a'' [''out''] (Some on_progress) w0 =
     (Inr md_a, w0\<lparr>trace := trace w0 @ trace_a,
                   sink := (sink w0)\<lparr>progress := progress (sink w0) @ [''Game A'']\<rparr>\<rparr>) \<and>
   clean (map_option get_text (select_one page_a ''h1.game_title'')) \<noteq> [] \<and>
   md_title md_a = clean (map_option get_text (select_one page_a ''h1.game_title''))"
proof -
  from title_fallback_chain [OF demo_project_a [of w0]] obtain resp where
    1: "http demo ''https://dev.itch.io/a'' = Some resp"
    and 2: "clean (map_option get_text (select_one (parse demo (content resp)) ''h1.game_title'')) \<noteq> [] \<longrightarrow>
       md_title md_a = clean (map_option get_text (select_one (parse demo (content resp)) ''h1.game_title''))"
    by blast
  have 3: "parse demo (content resp) = page_a"
    using 1 by (auto simp: demo_http demo_parse)
  have 4: "clean (map_option get_text (select_one page_a ''h1.game_title'')) = ''Game A''"
    by (simp add: page_a_def select_one_def leaf_def clean_Game_A)
  show ?thesis using 2 unfolding 3 by (simp add: demo_project_a 4)
qed

section \<open>Scraping a project: what can raise and what is recorded\<close>

lemma download_all_returns: "\<exists>w'. download_all e tasks w = (Inr (), w')"
  using download_all_asset [of e tasks w] by (cases "download_all e tasks w") auto

text \<open>
  A project is scraped to the end whenever its page can be fetched, the three reads that
  can raise do not, the two directories and \<open>metadata.json\<close> can be written, and the
  callback accepts the message. Nothing is asked of the image downloads.
\<close>

lemma scrape_project_returns:
  assumes "http e url = Some resp" "200 \<le> status resp" "status resp < 300"
    and "extract_title (parse e (content resp)) url = Inr title"
    and "extract_rating (parse e (content resp)) = Inr rt"
    and "extract_cover_url (parse e (content resp)) = Inr cover_url"
    and "mkdir_ok e (path_div base_dir (slug_of url))"
    and "mkdir_ok e (path_div (path_div base_dir (slug_of url)) ''images'')"
    and "write_ok e (path_div (path_div base_dir (slug_of url)) ''metadata.json'')"
    and "\<And>f s. cb = Some f \<Longrightarrow> \<exists>s'. f (if title \<noteq> [] then title else slug_of url) s = (Inr (), s')"
  shows "\<exists>md w'. scrape_project e url base_dir cb w = (Inr md, w')"
proof -
  have cp: "\<exists>w'. call_progress cb (if title \<noteq> [] then title else slug_of url) w5 = (Inr (), w')" for w5
  proof (cases cb)
    case None
    then show ?thesis by (simp add: call_progress_Inr)
  next
    case (Some f)
    then obtain s' where "f (if title \<noteq> [] then title else slug_of url) (sink w5) = (Inr (), s')"
      using assms(10) by blast
    then show ?thesis using Some by (simp add: call_progress_Inr)
  qed
  obtain rating rating_count where rt: "rt = (rating, rating_count)" by (cases rt)
  let ?pd = "path_div base_dir (slug_of url)"
  let ?soup = "parse e (content resp)"
  let ?tasks = "(if truthy cover_url
          then [(''cover'', the cover_url,
                 path_div (path_div ?pd ''images'') (''cover'' @ ext_from_url (the cover_url)))]
          else []) @
         map (\<lambda>(i, surl).
                (''screenshot_'' @ str_nat i, surl,
                 path_div (path_div ?pd ''images'')
                   (''screenshot_'' @ str_nat i @ ext_from_url surl)))
           (enumerate (extract_screenshot_urls ?soup))"
  let ?w3 = "w\<lparr>trace := trace w @ [Get url, Mkdir ?pd, Mkdir (path_div ?pd ''images'')]\<rparr>"
  obtain w4 where d: "download_all e ?tasks ?w3 = (Inr (), w4)"
    using download_all_returns by blast
  obtain w' where p: "call_progress cb (if title \<noteq> [] then title else slug_of url)
      (w4\<lparr>trace := trace w4 @ [WriteText (path_div ?pd ''metadata.json'')
        (metadata_json \<lparr>md_url = url, md_title = title, md_slug = slug_of url,
            md_short_description = extract_short_text ?soup,
            md_description = extract_description ?soup,
            md_tags = extract_tags ?soup, md_info = extract_info ?soup,
            md_price = extract_price ?soup, md_platforms = extract_platforms ?soup,
            md_rating = rating, md_rating_count = rating_count,
            md_cover_image =
              (if truthy cover_url then Some (''images/cover'' @ ext_from_url (the cover_url))
               else None),
            md_screenshots =
              map (\<lambda>(i, surl). ''images/screenshot_'' @ str_nat i @ ext_from_url surl)
                (enumerate (extract_screenshot_urls ?soup))\<rparr>)]\<rparr>) = (Inr (), w')"
    using cp by blast
  show ?thesis
    unfolding scrape_project_def Let_def
    using assms(1-9) d p
    by (simp add: bnd_def fetch_def client_get_def raise_for_status_def emit_def ret_def lift_def
        mkdir_def write_text_def rt del: download_all.simps)
qed

lemma rating_absent_is_none:
  "select_one soup ''meta[itemprop=\"ratingValue\"]'' = None \<Longrightarrow>
   select_one soup ''meta[itemprop=\"ratingCount\"]'' = None \<Longrightarrow>
   extract_rating soup = Inr (None, None)"
  by (simp add: extract_rating_def)

lemma page_c_fields:
  "extract_title page_c ''https://dev.itch.io/c'' = Inr ''Game C''"
  "extract_short_text page_c = []"
  "extract_rating page_c = Inl (KeyError ''content'')"
  by (simp_all add: extract_defs page_c_def leaf_def clean_def strip_def isspace_def)

text \<open>
  C2. The code at the failing input: page \<open>c\<close> of the example site has a description tag
  and a rating tag, both without a \<open>content\<close> attribute. The description is read with a
  default and is empty; the rating is read by indexing and raises \<open>KeyError\<close>, and so does
  the scrape of the page.
\<close>

theorem rating_tag_without_content_raises:
  "extract_short_text page_c = [] \<and>
   extract_rating page_c = Inl (KeyError ''content'') \<and>
   fst (scrape_project demo ''https://dev.itch.io/c'' [''out''] (Some on_progress) w0)
     = Inl (KeyError ''content'')"
  by (simp add: page_c_fields scrape_project_def Let_def prog_defs demo_http demo_parse demo_ok
      slug_c path_div_def)


text \<open>
  C1, as stated, fails: on the example site the cover of project \<open>a\<close> cannot be requested
  and its second screenshot answers 404, so both downloads report failure; the record
  still names a cover path and both screenshot paths.
\<close>

theorem failed_assets_listed_counterexample:
  "fst (download_file demo ''https://img.itch.zone/a/cover.png?x=1''
          [''out'', ''a'', ''images'', ''cover.png''] w0) = Inr False \<and>
   fst (download_file demo ''https://img.itch.zone/a/download''
          [''out'', ''a'', ''images'', ''screenshot_1.jpg''] w0) = Inr False \<and>
   map_sum id md_cover_image
     (fst (scrape_project demo ''https://dev.itch.io/a'' [''out''] (Some on_progress) w0))
     = Inr (Some ''images/cover.png'') \<and>
   map_sum id md_screenshots
     (fst (scrape_project demo ''https://dev.itch.io/a'' [''out''] (Some on_progress) w0))
     = Inr [''images/screenshot_0.gif'', ''images/screenshot_1.jpg'']"
  by (simp add: demo_project_a md_a_def prog_defs demo_http demo_ok)

lemma requests_of_append: "requests_of (xs @ ys) = requests_of xs @ requests_of ys"
  by (induction xs rule: requests_of.induct) auto

lemma map_snd_enumerate: "map snd (enumerate xs) = xs"
  by (simp add: enumerate_def)

text \<open>One download: it sends its request, and writes the file when it can.\<close>

lemma download_file_events:
  "download_file e u d w = (r, w') \<Longrightarrow>
     \<exists>evs. trace w' = trace w @ evs \<and> requests_of evs = [u] \<and>
       (downloadable e u d \<longrightarrow> WriteBytes d (content (the (http e u))) \<in> set evs)"
  by (auto simp: download_file_def download_body_def client_get_def raise_for_status_def
      mkdir_def write_bytes_def bnd_def emit_def ret_def raise_def downloadable_def
      split: option.splits if_splits)

text \<open>
  The loop over the tasks requests every task's URL, in order, and writes every file that
  can be downloaded, whatever happens to the other tasks.
\<close>

lemma download_all_events:
  "download_all e tasks w = (r, w') \<Longrightarrow>
     \<exists>evs. trace w' = trace w @ evs \<and>
       requests_of evs = map (\<lambda>t. fst (snd t)) tasks \<and>
       (\<forall>t\<in>set tasks. downloadable e (fst (snd t)) (snd (snd t)) \<longrightarrow>
          WriteBytes (snd (snd t)) (content (the (http e (fst (snd t))))) \<in> set evs)"
proof (induction tasks arbitrary: w)
  case Nil
  then show ?case by (simp add: ret_def)
next
  case (Cons t tasks)
  obtain label u d where t: "t = (label, u, d)" by (cases t)
  obtain r1 w1 where f: "download_file e u d w = (r1, w1)"
    by (cases "download_file e u d w")
  from download_file_asset [OF f] obtain b where b: "r1 = Inr b" by blast
  from download_file_events [OF f] obtain evs1 where
    1: "trace w1 = trace w @ evs1" "requests_of evs1 = [u]"
    "downloadable e u d \<longrightarrow> WriteBytes d (content (the (http e u))) \<in> set evs1"
    by blast
  have "download_all e tasks w1 = (r, w')"
    using Cons.prems t f b by (simp add: bnd_def)
  from Cons.IH [OF this] obtain evs2 where
    2: "trace w' = trace w1 @ evs2" "requests_of evs2 = map (\<lambda>t. fst (snd t)) tasks"
    "\<forall>t\<in>set tasks. downloadable e (fst (snd t)) (snd (snd t)) \<longrightarrow>
          WriteBytes (snd (snd t)) (content (the (http e (fst (snd t))))) \<in> set evs2"
    by blast
  have a: "trace w' = trace w @ (evs1 @ evs2)" using 1 2 by simp
  have b: "requests_of (evs1 @ evs2) = map (\<lambda>t. fst (snd t)) (t # tasks)"
    using 1 2 t by (simp add: requests_of_append)
  have c: "\<forall>t'\<in>set (t # tasks). downloadable e (fst (snd t')) (snd (snd t')) \<longrightarrow>
          WriteBytes (snd (snd t')) (content (the (http e (fst (snd t'))))) \<in> set (evs1 @ evs2)"
    using 1(3) 2(3) t by auto
  show ?case using a b c by (intro exI [of _ "evs1 @ evs2"] conjI)
qed


text \<open>
  A successful scrape of a project: after the page request and the two directories come
  the events of the download loop over the planned tasks, then the write of
  \<open>metadata.json\<close>, then the call of the callback.
\<close>

lemma scrape_project_downloads:
  assumes "scrape_project e url base_dir cb (w :: 's world) = (Inr md, w')"
  shows "\<exists>resp cover_url (w3 :: 's world) w4.
    http e url = Some resp \<and>
    extract_cover_url (parse e (content resp)) = Inr cover_url \<and>
    trace w3 = trace w @
      [Get url, Mkdir (path_div base_dir (slug_of url)),
       Mkdir (path_div (path_div base_dir (slug_of url)) ''images'')] \<and>
    download_all e
        ((if truthy cover_url
          then [(''cover'', the cover_url,
                 path_div (path_div (path_div base_dir (slug_of url)) ''images'')
                   (''cover'' @ ext_from_url (the cover_url)))]
          else []) @
         map (\<lambda>(i, surl).
                (''screenshot_'' @ str_nat i, surl,
                 path_div (path_div (path_div base_dir (slug_of url)) ''images'')
                   (''screenshot_'' @ str_nat i @ ext_from_url surl)))
           (enumerate (extract_screenshot_urls (parse e (content resp))))) w3 = (Inr (), w4) \<and>
    trace w' = trace w4 @
      [WriteText (path_div (path_div base_dir (slug_of url)) ''metadata.json'') (metadata_json md)] @
      (case cb of None \<Rightarrow> [] | Some f \<Rightarrow> [Progress (done_message md)])"
proof -
  from assms obtain resp title rating rating_count cover_url w1 w2 w3 w4 w5 where
    f: "fetch e url w = (Inr resp, w1)"
    and m1: "mkdir e (path_div base_dir (slug_of url)) w1 = (Inr (), w2)"
    and m2: "mkdir e (path_div (path_div base_dir (slug_of url)) ''images'') w2 = (Inr (), w3)"
    and c: "extract_cover_url (parse e (content resp)) = Inr cover_url"
    and d: "download_all e
        ((if truthy cover_url
          then [(''cover'', the cover_url,
                 path_div (path_div (path_div base_dir (slug_of url)) ''images'')
                   (''cover'' @ ext_from_url (the cover_url)))]
          else []) @
         map (\<lambda>(i, surl).
                (''screenshot_'' @ str_nat i, surl,
                 path_div (path_div (path_div base_dir (slug_of url)) ''images'')
                   (''screenshot_'' @ str_nat i @ ext_from_url surl)))
           (enumerate (extract_screenshot_urls (parse e (content resp))))) w3 = (Inr (), w4)"
    and wt: "write_text e (path_div (path_div base_dir (slug_of url)) ''metadata.json'')
        (metadata_json md) w4 = (Inr (), w5)"
    and cp: "call_progress cb (if title \<noteq> [] then title else slug_of url) w5 = (Inr (), w')"
    and t: "md_title md = title" and sl: "md_slug md = slug_of url"
    unfolding scrape_project_def Let_def
    by (auto simp: bnd_Inr lift_Inr ret_Inr split: prod.splits)
  have http: "http e url = Some resp" and w1: "w1 = w\<lparr>trace := trace w @ [Get url]\<rparr>"
    using f by (auto simp: fetch_Inr)
  have w2: "w2 = w1\<lparr>trace := trace w1 @ [Mkdir (path_div base_dir (slug_of url))]\<rparr>"
    using m1 by (simp add: mkdir_Inr)
  have w3: "w3 = w2\<lparr>trace := trace w2 @ [Mkdir (path_div (path_div base_dir (slug_of url)) ''images'')]\<rparr>"
    using m2 by (simp add: mkdir_Inr)
  have w5: "w5 = w4\<lparr>trace := trace w4 @
      [WriteText (path_div (path_div base_dir (slug_of url)) ''metadata.json'') (metadata_json md)]\<rparr>"
    using wt by (simp add: write_text_Inr)
  have msg: "(if title \<noteq> [] then title else slug_of url) = done_message md"
    by (simp add: done_message_def t sl)
  have w': "trace w' = trace w5 @ (case cb of None \<Rightarrow> [] | Some f \<Rightarrow> [Progress (done_message md)])"
    using cp unfolding msg by (cases cb) (auto simp: call_progress_Inr)
  have 3: "trace w3 = trace w @
      [Get url, Mkdir (path_div base_dir (slug_of url)),
       Mkdir (path_div (path_div base_dir (slug_of url)) ''images'')]"
    using w1 w2 w3 by simp
  have 5: "trace w' = trace w4 @
      [WriteText (path_div (path_div base_dir (slug_of url)) ''metadata.json'') (metadata_json md)] @
      (case cb of None \<Rightarrow> [] | Some f \<Rightarrow> [Progress (done_message md)])"
    using w' w5 by simp
  show ?thesis
    apply (rule exI [where x = resp], rule exI [where x = cover_url])
    apply (rule exI [where x = w3], rule exI [where x = w4])
    using http c 3 d 5 by (intro conjI)
qed

text \<open>
  C1, amended. The record of a scraped project names the planned path of every asset the
  page lists, whether or not its download succeeded: \<open>cover_image\<close> is
  \<open>images/cover<ext>\<close> whenever a non-empty cover URL was found and null otherwise, and
  \<open>screenshots\<close> holds \<open>images/screenshot_<i><ext>\<close> for every screenshot URL, in page
  order. Every listed asset is requested, once and in order, the cover first; each asset
  that can be downloaded is written to its file, whatever happened to the others. After
  the downloads the record is written to \<open>metadata.json\<close> as returned. The download loop
  never raises and leaves the listener's state alone.
\<close>

theorem asset_paths_recorded:
  "(scrape_project e url base_dir cb (w :: 's world) = (Inr md, w') \<longrightarrow>
      (\<exists>resp cover_url evs.
         http e url = Some resp \<and>
         extract_cover_url (parse e (content resp)) = Inr cover_url \<and>
         md_cover_image md =
           (if truthy cover_url then Some (''images/cover'' @ ext_from_url (the cover_url))
            else None) \<and>
         md_screenshots md =
           map (\<lambda>(i, surl). ''images/screenshot_'' @ str_nat i @ ext_from_url surl)
             (enumerate (extract_screenshot_urls (parse e (content resp)))) \<and>
         trace w' = trace w @ evs @
           [WriteText (path_div (path_div base_dir (slug_of url)) ''metadata.json'')
              (metadata_json md)] @
           (case cb of
              None \<Rightarrow> []
            | Some f \<Rightarrow> [Progress (if md_title md \<noteq> [] then md_title md else md_slug md)]) \<and>
         requests_of evs =
           url # (if truthy cover_url then [the cover_url] else []) @
           extract_screenshot_urls (parse e (content resp)) \<and>
         (truthy cover_url \<and>
          downloadable e (the cover_url)
            (path_div (path_div (path_div base_dir (slug_of url)) ''images'')
               (''cover'' @ ext_from_url (the cover_url))) \<longrightarrow>
            WriteBytes
              (path_div (path_div (path_div base_dir (slug_of url)) ''images'')
                 (''cover'' @ ext_from_url (the cover_url)))
              (content (the (http e (the cover_url)))) \<in> set evs) \<and>
         (\<forall>(i, surl)\<in>set (enumerate (extract_screenshot_urls (parse e (content resp)))).
            downloadable e surl
              (path_div (path_div (path_div base_dir (slug_of url)) ''images'')
                 (''screenshot_'' @ str_nat i @ ext_from_url surl)) \<longrightarrow>
            WriteBytes
              (path_div (path_div (path_div base_dir (slug_of url)) ''images'')
                 (''screenshot_'' @ str_nat i @ ext_from_url surl))
              (content (the (http e surl))) \<in> set evs))) \<and>
   fst (download_all e tasks w) = Inr () \<and>
   sink (snd (download_all e tasks w)) = sink w"
  (is "(_ \<longrightarrow> ?recorded) \<and> _")
proof -
  have never: "fst (download_all e tasks w) = Inr () \<and> sink (snd (download_all e tasks w)) = sink w"
    using download_all_asset [of e tasks w] by (cases "download_all e tasks w") auto
  have main: ?recorded
    if run: "scrape_project e url base_dir cb w = (Inr md, w')"
  proof -
    let ?imgs = "path_div (path_div base_dir (slug_of url)) ''images''"
    from scrape_project_Inr [OF run] obtain resp0 cover0 where
      h0: "http e url = Some resp0"
      and c0: "extract_cover_url (parse e (content resp0)) = Inr cover0"
      and ci: "md_cover_image md =
           (if truthy cover0 then Some (''images/cover'' @ ext_from_url (the cover0)) else None)"
      and ss: "md_screenshots md =
           map (\<lambda>(i, surl). ''images/screenshot_'' @ str_nat i @ ext_from_url surl)
             (enumerate (extract_screenshot_urls (parse e (content resp0))))"
      by blast
    from scrape_project_downloads [OF run] obtain resp cover_url and w3 w4 :: "'s world" where
      h: "http e url = Some resp"
      and c: "extract_cover_url (parse e (content resp)) = Inr cover_url"
      and t3: "trace w3 = trace w @
          [Get url, Mkdir (path_div base_dir (slug_of url)), Mkdir ?imgs]"
      and d: "download_all e
        ((if truthy cover_url
          then [(''cover'', the cover_url, path_div ?imgs (''cover'' @ ext_from_url (the cover_url)))]
          else []) @
         map (\<lambda>(i, surl).
                (''screenshot_'' @ str_nat i, surl,
                 path_div ?imgs (''screenshot_'' @ str_nat i @ ext_from_url surl)))
           (enumerate (extract_screenshot_urls (parse e (content resp))))) w3 = (Inr (), w4)"
      and t5: "trace w' = trace w4 @
          [WriteText (path_div (path_div base_dir (slug_of url)) ''metadata.json'') (metadata_json md)] @
          (case cb of None \<Rightarrow> [] | Some f \<Rightarrow> [Progress (done_message md)])"
      by blast
    have same: "resp0 = resp" using h0 h by simp
    have cov: "cover0 = cover_url" using c0 c same by simp
    let ?shots = "extract_screenshot_urls (parse e (content resp))"
    let ?ctasks = "if truthy cover_url
          then [(''cover'', the cover_url, path_div ?imgs (''cover'' @ ext_from_url (the cover_url)))]
          else []"
    let ?stasks = "map (\<lambda>(i, surl).
                (''screenshot_'' @ str_nat i, surl,
                 path_div ?imgs (''screenshot_'' @ str_nat i @ ext_from_url surl)))
           (enumerate ?shots)"
    from download_all_events [OF d] obtain dl where
      t4: "trace w4 = trace w3 @ dl"
      and rq: "requests_of dl = map (\<lambda>t. fst (snd t)) (?ctasks @ ?stasks)"
      and wb: "\<forall>t\<in>set (?ctasks @ ?stasks). downloadable e (fst (snd t)) (snd (snd t)) \<longrightarrow>
          WriteBytes (snd (snd t)) (content (the (http e (fst (snd t))))) \<in> set dl"
      by blast
    let ?evs = "[Get url, Mkdir (path_div base_dir (slug_of url)), Mkdir ?imgs] @ dl"
    have "map (\<lambda>t. fst (snd t)) ?stasks = map snd (enumerate ?shots)"
      by (simp add: case_prod_beta)
    then have rs: "map (\<lambda>t. fst (snd t)) ?stasks = ?shots"
      by (simp only: map_snd_enumerate)
    have 1: "requests_of ?evs = url # (if truthy cover_url then [the cover_url] else []) @ ?shots"
      using rq rs by (simp add: requests_of_append)
    have 2: "truthy cover_url \<and>
          downloadable e (the cover_url) (path_div ?imgs (''cover'' @ ext_from_url (the cover_url))) \<longrightarrow>
            WriteBytes (path_div ?imgs (''cover'' @ ext_from_url (the cover_url)))
              (content (the (http e (the cover_url)))) \<in> set ?evs"
      using wb by auto
    have 3: "\<forall>(i, surl)\<in>set (enumerate ?shots).
            downloadable e surl (path_div ?imgs (''screenshot_'' @ str_nat i @ ext_from_url surl)) \<longrightarrow>
            WriteBytes (path_div ?imgs (''screenshot_'' @ str_nat i @ ext_from_url surl))
              (content (the (http e surl))) \<in> set ?evs"
    proof (intro ballI, clarify)
      fix i surl
      assume m: "(i, surl) \<in> set (enumerate ?shots)"
        and dn: "downloadable e surl (path_div ?imgs (''screenshot_'' @ str_nat i @ ext_from_url surl))"
      have "(\<lambda>(i, surl).
                (''screenshot_'' @ str_nat i, surl,
                 path_div ?imgs (''screenshot_'' @ str_nat i @ ext_from_url surl))) (i, surl)
            \<in> set ?stasks"
        unfolding set_map by (rule imageI [OF m])
      then have "(''screenshot_'' @ str_nat i, surl,
             path_div ?imgs (''screenshot_'' @ str_nat i @ ext_from_url surl))
            \<in> set (?ctasks @ ?stasks)"
        by simp
      from wb [rule_format, OF this] dn
      have "WriteBytes (path_div ?imgs (''screenshot_'' @ str_nat i @ ext_from_url surl))
              (content (the (http e surl))) \<in> set dl"
        by simp
      then show "WriteBytes (path_div ?imgs (''screenshot_'' @ str_nat i @ ext_from_url surl))
              (content (the (http e surl))) \<in> set ?evs"
        by simp
    qed
    have dm: "done_message md = (if md_title md \<noteq> [] then md_title md else md_slug md)"
      by (simp add: done_message_def)
    have 4: "trace w' = trace w @ ?evs @
           [WriteText (path_div (path_div base_dir (slug_of url)) ''metadata.json'')
              (metadata_json md)] @
           (case cb of
              None \<Rightarrow> []
            | Some f \<Rightarrow> [Progress (if md_title md \<noteq> [] then md_title md else md_slug md)])"
      using t5 t4 t3 unfolding dm by simp
    show ?thesis
      apply (rule exI [where x = resp], rule exI [where x = cover_url], rule exI [where x = ?evs])
      using h c ci [unfolded cov] ss [unfolded same] 4 1 2 3 by (intro conjI)
  qed
  show ?thesis
  proof (intro conjI impI)
    assume "scrape_project e url base_dir cb w = (Inr md, w')"
    then show ?recorded by (rule main)
  next
    show "fst (download_all e tasks w) = Inr ()" using never by simp
  next
    show "sink (snd (download_all e tasks w)) = sink w" using never by simp
  qed
qed


theorem asset_paths_recorded_witness:
  "scrape_project demo ''https://dev.itch.io/a'' [''out''] (Some on_progress) w0 =
     (Inr md_a, w0\<lparr>trace := trace w0 @ trace_a,
                   sink := (sink w0)\<lparr>progress := progress (sink w0) @ [''Game A'']\<rparr>\<rparr>) \<and>
   extract_cover_url page_a = Inr (Some ''https://img.itch.zone/a/cover.png?x=1'') \<and>
   md_cover_image md_a = Some (''images/cover'' @ ext_from_url ''https://img.itch.zone/a/cover.png?x=1'') \<and>
   requests_of trace_a =
     [''https://dev.itch.io/a'', ''https://img.itch.zone/a/cover.png?x=1'',
      ''https://img.itch.zone/a/s0.gif'', ''https://img.itch.zone/a/download''] \<and>
   downloadable demo ''https://img.itch.zone/a/s0.gif'' [''out'', ''a'', ''images'', ''screenshot_0.gif''] \<and>
   WriteBytes [''out'', ''a'', ''images'', ''screenshot_0.gif''] ''GIF'' \<in> set trace_a \<and>
   WriteText [''out'', ''a'', ''metadata.json''] (metadata_json md_a) \<in> set trace_a"
proof -
  let ?w' = "w0\<lparr>trace := trace w0 @ trace_a,
                sink := (sink w0)\<lparr>progress := progress (sink w0) @ [''Game A'']\<rparr>\<rparr>"
  let ?imgs = "path_div (path_div [''out''] (slug_of ''https://dev.itch.io/a'')) ''images''"
  have run: "scrape_project demo ''https://dev.itch.io/a'' [''out''] (Some on_progress) w0 = (Inr md_a, ?w')"
    by (rule demo_project_a)
  from asset_paths_recorded [of demo "''https://dev.itch.io/a''" "[''out'']" "Some on_progress" w0 md_a ?w' "[]",
      THEN conjunct1, THEN mp, OF run]
  obtain resp cover_url evs where
    1: "http demo ''https://dev.itch.io/a'' = Some resp"
    and 2: "extract_cover_url (parse demo (content resp)) = Inr cover_url"
    and 3: "md_cover_image md_a =
           (if truthy cover_url then Some (''images/cover'' @ ext_from_url (the cover_url))
            else None)"
    and 4: "trace ?w' = trace w0 @ evs @
           [WriteText (path_div (path_div [''out''] (slug_of ''https://dev.itch.io/a'')) ''metadata.json'')
              (metadata_json md_a)] @
           (case Some on_progress of
              None \<Rightarrow> []
            | Some f \<Rightarrow> [Progress (if md_title md_a \<noteq> [] then md_title md_a else md_slug md_a)])"
    and 5: "requests_of evs =
           ''https://dev.itch.io/a'' # (if truthy cover_url then [the cover_url] else []) @
           extract_screenshot_urls (parse demo (content resp))"
    and 6: "\<forall>(i, surl)\<in>set (enumerate (extract_screenshot_urls (parse demo (content resp)))).
            downloadable demo surl (path_div ?imgs (''screenshot_'' @ str_nat i @ ext_from_url surl)) \<longrightarrow>
            WriteBytes (path_div ?imgs (''screenshot_'' @ str_nat i @ ext_from_url surl))
              (content (the (http demo surl))) \<in> set evs"
    by (elim exE conjE)
  have p: "parse demo (content resp) = page_a"
    using 1 by (auto simp: demo_http demo_parse)
  have c: "cover_url = Some ''https://img.itch.zone/a/cover.png?x=1''"
    using 2 unfolding p by (simp add: page_a_fields)
  have tr: "trace_a = evs @
      [WriteText [''out'', ''a'', ''metadata.json''] (metadata_json md_a), Progress ''Game A'']"
    using 4 by (simp add: w0_def slug_a path_div_def md_a_def)
  have rq: "requests_of trace_a =
     [''https://dev.itch.io/a'', ''https://img.itch.zone/a/cover.png?x=1'',
      ''https://img.itch.zone/a/s0.gif'', ''https://img.itch.zone/a/download'']"
    unfolding tr using 5 unfolding p c by (simp add: requests_of_append page_a_fields truthy_def)
  have dn: "downloadable demo ''https://img.itch.zone/a/s0.gif'' [''out'', ''a'', ''images'', ''screenshot_0.gif'']"
    by (simp add: downloadable_def demo_http demo_ok)
  have mem: "(0, ''https://img.itch.zone/a/s0.gif'') \<in>
      set (enumerate (extract_screenshot_urls (parse demo (content resp))))"
    unfolding p by (simp add: page_a_fields enumerate_def upt_rec)
  have dest: "path_div ?imgs (''screenshot_'' @ str_nat 0 @ ext_from_url ''https://img.itch.zone/a/s0.gif'') =
      [''out'', ''a'', ''images'', ''screenshot_0.gif'']"
    by (simp add: slug_a path_div_def str_nat_0 ext_s0)
  from 6 [rule_format, OF mem] have
    "downloadable demo ''https://img.itch.zone/a/s0.gif''
        (path_div ?imgs (''screenshot_'' @ str_nat 0 @ ext_from_url ''https://img.itch.zone/a/s0.gif'')) \<longrightarrow>
     WriteBytes (path_div ?imgs (''screenshot_'' @ str_nat 0 @ ext_from_url ''https://img.itch.zone/a/s0.gif''))
       (content (the (http demo ''https://img.itch.zone/a/s0.gif''))) \<in> set evs"
    by simp
  then have "WriteBytes [''out'', ''a'', ''images'', ''screenshot_0.gif''] ''GIF'' \<in> set evs"
    unfolding dest using dn by (simp add: demo_http)
  then have wb: "WriteBytes [''out'', ''a'', ''images'', ''screenshot_0.gif''] ''GIF'' \<in> set trace_a"
    unfolding tr by simp
  have wt: "WriteText [''out'', ''a'', ''metadata.json''] (metadata_json md_a) \<in> set trace_a"
    unfolding tr by simp
  have cv: "md_cover_image md_a =
      Some (''images/cover'' @ ext_from_url ''https://img.itch.zone/a/cover.png?x=1'')"
    using 3 unfolding c by (simp add: truthy_def)
  show ?thesis
    using run page_a_fields(9) cv rq dn wb wt by (intro conjI)
qed

section \<open>Properties of the listing paginator\<close>

lemma length_add_new: "length urls \<le> length (add_new urls hs)"
proof (induction hs arbitrary: urls)
  case Nil
  then show ?case by simp
next
  case (Cons h hs)
  show ?case using Cons [of urls] Cons [of "urls @ [h]"] by simp
qed

lemma set_add_new: "set (add_new urls hs) = set urls \<union> set hs"
  by (induction hs arbitrary: urls) auto

lemma distinct_add_new: "distinct urls \<Longrightarrow> distinct (add_new urls hs)"
  by (induction hs arbitrary: urls) auto

lemma add_new_append: "add_new urls (xs @ ys) = add_new (add_new urls xs) ys"
  by (induction xs arbitrary: urls) auto

lemma add_new_same_length: "length (add_new urls hs) = length urls \<longleftrightarrow> set hs \<subseteq> set urls"
proof (induction hs arbitrary: urls)
  case Nil
  then show ?case by simp
next
  case (Cons h hs)
  show ?case
  proof (cases "h \<in> set urls")
    case True
    then show ?thesis using Cons [of urls] by simp
  next
    case False
    then show ?thesis using length_add_new [of "urls @ [h]" hs] by auto
  qed
qed

text \<open>Keeping the first occurrence of each element, in order.\<close>

lemma add_new_Nil: "add_new [] hs = rev (remdups (rev hs))"
proof (induction hs rule: rev_induct)
  case Nil
  then show ?case by simp
next
  case (snoc x xs)
  have "add_new [] (xs @ [x]) = add_new (add_new [] xs) [x]"
    by (rule add_new_append)
  then show ?case using snoc by (simp add: set_add_new)
qed

lemma hrefs_Cons:
  "hrefs (a # cells) =
     (if truthy (tag_get a ''href'') then the (tag_get a ''href'') # hrefs cells else hrefs cells)"
  by (simp add: hrefs_def)

text \<open>The loop over the links of one page adds the new ones and counts them.\<close>

lemma collect_links_add_new:
  "collect_links cells urls found =
     (add_new urls (hrefs cells), found + (length (add_new urls (hrefs cells)) - length urls))"
proof (induction cells arbitrary: urls found)
  case Nil
  then show ?case by (simp add: hrefs_def)
next
  case (Cons a cells)
  show ?case
    using length_add_new [of "urls @ [the (tag_get a ''href'')]" "hrefs cells"]
    by (auto simp: Cons hrefs_Cons Let_def)
qed

lemma collect_links_fst: "fst (collect_links cells urls found) = add_new urls (hrefs cells)"
  by (simp add: collect_links_add_new)

lemma collect_links_none_new:
  "snd (collect_links cells urls 0) = 0 \<longleftrightarrow> set (hrefs cells) \<subseteq> set urls"
  using length_add_new [of urls "hrefs cells"] add_new_same_length [of urls "hrefs cells"]
  by (auto simp: collect_links_add_new)

lemma fetch_result:
  "fetch e url w =
     (case http e url of
        None \<Rightarrow> (Inl (RequestError url), w\<lparr>trace := trace w @ [Get url]\<rparr>)
      | Some resp \<Rightarrow>
          if 200 \<le> status resp \<and> status resp < 300
          then (Inr resp, w\<lparr>trace := trace w @ [Get url]\<rparr>)
          else (Inl (HTTPStatusError (status resp)), w\<lparr>trace := trace w @ [Get url]\<rparr>))"
  by (simp add: fetch_def client_get_def raise_for_status_def bnd_def emit_def ret_def raise_def
      split: option.splits)

text \<open>
  One turn of the loop, read through the page's content: first for the body of the loop
  with any continuation \<open>f\<close>, then for the loop itself.
\<close>

lemma loop_body_step:
  "(case fetch e (page_url base p) w of
      (Inl exn, w') \<Rightarrow> Some (Inl exn, w')
    | (Inr resp, w') \<Rightarrow>
        (let soup = parse e (content resp);
             r = collect_links (listing_cells soup) urls 0;
             next_btn = select_one soup ''a.next_page''
         in if next_btn = None \<or> snd r = 0 then Some (Inr (fst r), w')
            else f e base (p + 1) (fst r) w')) =
     (if \<not> page_ok e base p
      then Some (Inl (case http e (page_url base p) of
                        None \<Rightarrow> RequestError (page_url base p)
                      | Some resp \<Rightarrow> HTTPStatusError (status resp)),
                 w\<lparr>trace := trace w @ [Get (page_url base p)]\<rparr>)
      else if \<not> page_has_next e base p \<or> set (page_links e base p) \<subseteq> set urls
      then Some (Inr (add_new urls (page_links e base p)),
                 w\<lparr>trace := trace w @ [Get (page_url base p)]\<rparr>)
      else f e base (p + 1) (add_new urls (page_links e base p))
             (w\<lparr>trace := trace w @ [Get (page_url base p)]\<rparr>))"
  by (auto simp: fetch_result page_ok_def page_has_next_def page_links_def Let_def
      collect_links_none_new collect_links_fst split: option.splits)

lemma fetch_loop_step:
  "fetch_loop e base p urls w =
     (if \<not> page_ok e base p
      then Some (Inl (case http e (page_url base p) of
                        None \<Rightarrow> RequestError (page_url base p)
                      | Some resp \<Rightarrow> HTTPStatusError (status resp)),
                 w\<lparr>trace := trace w @ [Get (page_url base p)]\<rparr>)
      else if \<not> page_has_next e base p \<or> set (page_links e base p) \<subseteq> set urls
      then Some (Inr (add_new urls (page_links e base p)),
                 w\<lparr>trace := trace w @ [Get (page_url base p)]\<rparr>)
      else fetch_loop e base (p + 1) (add_new urls (page_links e base p))
             (w\<lparr>trace := trace w @ [Get (page_url base p)]\<rparr>))"
  by (subst fetch_loop.simps) (rule loop_body_step)

lemma paginated_0:
  "page_ok e base p \<Longrightarrow> \<not> page_has_next e base p \<or> set (page_links e base p) \<subseteq> set urls \<Longrightarrow>
     paginated e base p urls 0"
  by (auto simp: paginated_def)

lemma seen_shift:
  assumes "p < q"
  shows "set (add_new urls (page_links e base p)) \<union> (\<Union>q'\<in>{Suc p..<q}. set (page_links e base q')) =
         set urls \<union> (\<Union>q'\<in>{p..<q}. set (page_links e base q'))"
proof -
  have "{p..<q} = insert p {Suc p..<q}" using assms by auto
  then show ?thesis by (auto simp: set_add_new)
qed

lemma paginated_Suc:
  assumes "page_ok e base p" "page_has_next e base p" "\<not> set (page_links e base p) \<subseteq> set urls"
    and "paginated e base (Suc p) (add_new urls (page_links e base p)) k"
  shows "paginated e base p urls (Suc k)"
  unfolding paginated_def
proof (intro conjI allI impI)
  fix q assume "p \<le> q \<and> q \<le> p + Suc k"
  then have "q = p \<or> (Suc p \<le> q \<and> q \<le> Suc p + k)" by auto
  then show "page_ok e base q" using assms(1,4) by (auto simp: paginated_def)
next
  fix q assume q: "p \<le> q \<and> q < p + Suc k"
  show "page_has_next e base q"
  proof (cases "q = p")
    case True then show ?thesis using assms(2) by simp
  next
    case False
    then have "Suc p \<le> q \<and> q < Suc p + k" using q by auto
    then show ?thesis using assms(4) by (simp add: paginated_def)
  qed
  show "\<not> set (page_links e base q) \<subseteq> set urls \<union> (\<Union>q'\<in>{p..<q}. set (page_links e base q'))"
  proof (cases "q = p")
    case True then show ?thesis using assms(3) by simp
  next
    case False
    then have r: "Suc p \<le> q \<and> q < Suc p + k" "p < q" using q by auto
    then have "\<not> set (page_links e base q) \<subseteq>
        set (add_new urls (page_links e base p)) \<union> (\<Union>q'\<in>{Suc p..<q}. set (page_links e base q'))"
      using assms(4) by (simp add: paginated_def)
    then show ?thesis unfolding seen_shift [OF r(2)] .
  qed
next
  have "\<not> page_has_next e base (Suc p + k) \<or>
        set (page_links e base (Suc p + k)) \<subseteq>
          set (add_new urls (page_links e base p)) \<union>
          (\<Union>q'\<in>{Suc p..<Suc p + k}. set (page_links e base q'))"
    using assms(4) by (simp add: paginated_def)
  moreover have "p < Suc p + k" by simp
  ultimately show "\<not> page_has_next e base (p + Suc k) \<or>
        set (page_links e base (p + Suc k)) \<subseteq>
          set urls \<union> (\<Union>q'\<in>{p..<p + Suc k}. set (page_links e base q'))"
    unfolding seen_shift [OF \<open>p < Suc p + k\<close>] by simp
qed

lemma upt_from: "[p..<Suc (p + Suc k)] = p # [Suc p..<Suc (Suc p + k)]"
  using upt_conv_Cons [of p "Suc (p + Suc k)"] by (simp del: upt_Suc)

lemma visited_Cons:
  "w\<lparr>trace := trace w @ [Get (page_url base p)]\<rparr>
     \<lparr>trace := trace (w\<lparr>trace := trace w @ [Get (page_url base p)]\<rparr>) @
        map (\<lambda>q. Get (page_url base q)) [Suc p..<Suc (Suc p + k)]\<rparr> =
   w\<lparr>trace := trace w @ map (\<lambda>q. Get (page_url base q)) [p..<Suc (p + Suc k)]\<rparr>"
  unfolding upt_from by simp

lemma links_Cons:
  "add_new (add_new urls (page_links e base p))
     (concat (map (page_links e base) [Suc p..<Suc (Suc p + k)])) =
   add_new urls (concat (map (page_links e base) [p..<Suc (p + Suc k)]))"
  unfolding upt_from by (simp add: add_new_append)

text \<open>
  If the loop returns a list, it has visited pages \<open>p\<close> to \<open>p + k\<close> for some \<open>k\<close>, every one
  but the last had a next-page link and a new link, and the list is what adding their
  links in order gives.
\<close>

lemma fetch_loop_Inr:
  assumes run: "fetch_loop e base p urls w = Some (Inr res, w')"
  shows "\<exists>k. paginated e base p urls k \<and>
    w' = w\<lparr>trace := trace w @ map (\<lambda>q. Get (page_url base q)) [p..<Suc (p + k)]\<rparr> \<and>
    res = add_new urls (concat (map (page_links e base) [p..<Suc (p + k)]))"
proof -
  have "\<forall>r v. y = (Inr r, v) \<longrightarrow> (\<exists>k. paginated e base p urls k \<and>
    v = w\<lparr>trace := trace w @ map (\<lambda>q. Get (page_url base q)) [p..<Suc (p + k)]\<rparr> \<and>
    r = add_new urls (concat (map (page_links e base) [p..<Suc (p + k)])))"
    if "fetch_loop e base p urls w = Some y" for y
    using that
  proof (induction e base p urls w y rule: fetch_loop.raw_induct [rotated, consumes 1, case_names step])
    case (step f e base p urls w y)
    note IH = step.IH
    note body = step.hyps [unfolded loop_body_step]
    show "\<forall>r v. y = (Inr r, v) \<longrightarrow> (\<exists>k. paginated e base p urls k \<and>
        v = w\<lparr>trace := trace w @ map (\<lambda>q. Get (page_url base q)) [p..<Suc (p + k)]\<rparr> \<and>
        r = add_new urls (concat (map (page_links e base) [p..<Suc (p + k)])))"
    proof (intro allI impI)
      fix r v assume y: "y = (Inr r, v)"
      let ?w1 = "w\<lparr>trace := trace w @ [Get (page_url base p)]\<rparr>"
      have ok: "page_ok e base p" using body y by (auto split: if_splits)
      show "\<exists>k. paginated e base p urls k \<and>
          v = w\<lparr>trace := trace w @ map (\<lambda>q. Get (page_url base q)) [p..<Suc (p + k)]\<rparr> \<and>
          r = add_new urls (concat (map (page_links e base) [p..<Suc (p + k)]))"
      proof (cases "\<not> page_has_next e base p \<or> set (page_links e base p) \<subseteq> set urls")
        case True
        then have "r = add_new urls (page_links e base p)" "v = ?w1"
          using body y ok by (auto split: if_splits)
        then show ?thesis using paginated_0 [OF ok True] by (intro exI [of _ 0]) simp
      next
        case False
        then have "f e base (p + 1) (add_new urls (page_links e base p)) ?w1 = Some y"
          using body ok by (auto split: if_splits)
        from IH [OF this] y obtain k where
          k: "paginated e base (Suc p) (add_new urls (page_links e base p)) k"
          "v = ?w1\<lparr>trace := trace ?w1 @ map (\<lambda>q. Get (page_url base q)) [Suc p..<Suc (Suc p + k)]\<rparr>"
          "r = add_new (add_new urls (page_links e base p))
                   (concat (map (page_links e base) [Suc p..<Suc (Suc p + k)]))"
          by auto
        have "paginated e base p urls (Suc k)"
          using paginated_Suc [OF ok] False k(1) by simp
        moreover have "v = w\<lparr>trace := trace w @ map (\<lambda>q. Get (page_url base q)) [p..<Suc (p + Suc k)]\<rparr>"
          unfolding k(2) by (rule visited_Cons)
        moreover have "r = add_new urls (concat (map (page_links e base) [p..<Suc (p + Suc k)]))"
          unfolding k(3) by (rule links_Cons)
        ultimately show ?thesis by blast
      qed
    qed
  qed
  then show ?thesis using run by blast
qed

text \<open>
  Conversely the loop does return when the site has such pages: it is only a site that
  goes on for ever that keeps it running.
\<close>

lemma fetch_loop_paginated:
  "paginated e base p urls k \<Longrightarrow>
     fetch_loop e base p urls w =
       Some (Inr (add_new urls (concat (map (page_links e base) [p..<Suc (p + k)]))),
             w\<lparr>trace := trace w @ map (\<lambda>q. Get (page_url base q)) [p..<Suc (p + k)]\<rparr>)"
proof (induction k arbitrary: p urls w)
  case 0
  then show ?case by (subst fetch_loop_step) (auto simp: paginated_def)
next
  case (Suc k)
  have ok: "page_ok e base p" "page_has_next e base p" "\<not> set (page_links e base p) \<subseteq> set urls"
    using Suc.prems by (auto simp: paginated_def)
  have "paginated e base (Suc p) (add_new urls (page_links e base p)) k"
    unfolding paginated_def
  proof (intro conjI allI impI)
    fix q assume "Suc p \<le> q \<and> q \<le> Suc p + k"
    then show "page_ok e base q" using Suc.prems by (auto simp: paginated_def)
  next
    fix q assume q: "Suc p \<le> q \<and> q < Suc p + k"
    then have r: "p \<le> q \<and> q < p + Suc k" "p < q" by auto
    show "page_has_next e base q" using Suc.prems r by (simp add: paginated_def)
    have "\<not> set (page_links e base q) \<subseteq> set urls \<union> (\<Union>q'\<in>{p..<q}. set (page_links e base q'))"
      using Suc.prems r by (simp add: paginated_def)
    then show "\<not> set (page_links e base q) \<subseteq>
        set (add_new urls (page_links e base p)) \<union> (\<Union>q'\<in>{Suc p..<q}. set (page_links e base q'))"
      unfolding seen_shift [OF r(2)] .
  next
    have "\<not> page_has_next e base (p + Suc k) \<or>
        set (page_links e base (p + Suc k)) \<subseteq>
          set urls \<union> (\<Union>q'\<in>{p..<p + Suc k}. set (page_links e base q'))"
      using Suc.prems by (simp add: paginated_def)
    moreover have "p < Suc p + k" by simp
    ultimately show "\<not> page_has_next e base (Suc p + k) \<or>
        set (page_links e base (Suc p + k)) \<subseteq>
          set (add_new urls (page_links e base p)) \<union>
          (\<Union>q'\<in>{Suc p..<Suc p + k}. set (page_links e base q'))"
      unfolding seen_shift [OF \<open>p < Suc p + k\<close>] by simp
  qed
  from Suc.IH [OF this, of "w\<lparr>trace := trace w @ [Get (page_url base p)]\<rparr>"]
  have "fetch_loop e base (p + 1) (add_new urls (page_links e base p))
          (w\<lparr>trace := trace w @ [Get (page_url base p)]\<rparr>) =
        Some (Inr (add_new urls (concat (map (page_links e base) [p..<Suc (p + Suc k)]))),
              w\<lparr>trace := trace w @ map (\<lambda>q. Get (page_url base q)) [p..<Suc (p + Suc k)]\<rparr>)"
    unfolding visited_Cons links_Cons by simp
  then show ?case using ok by (subst fetch_loop_step) (simp only: if_False simp_thms)
qed

lemma seen_from_Nil:
  "(\<not> set (page_links e base q) \<subseteq> set [] \<union> (\<Union>q'\<in>{1..<q}. set (page_links e base q'))) \<longleftrightarrow>
   (\<exists>h\<in>set (page_links e base q). \<forall>q'. 1 \<le> q' \<and> q' < q \<longrightarrow> h \<notin> set (page_links e base q'))"
  by (simp add: subset_iff Bex_def) (metis One_nat_def)

text \<open>
  C4. When \<^verbatim>\<open>fetch_project_urls\<close> returns a list it has requested listing pages 1 to \<open>n\<close>
  in order, for some \<open>n \<ge> 1\<close>, and nothing else; each of these pages could be fetched; a
  page was followed by a further one exactly when it had a next-page link and showed a
  link that no earlier page had shown; and the list holds the links of these pages in
  the order they were met, each once, at its first occurrence.
\<close>

theorem fetch_project_urls_pagination:
  assumes "fetch_project_urls e creator w = Some (Inr res, w')"
  shows "\<exists>n. 1 \<le> n \<and>
    w' = w\<lparr>trace := trace w @ map (\<lambda>q. Get (page_url (creator_base creator) q)) [1..<Suc n]\<rparr> \<and>
    (\<forall>q. 1 \<le> q \<and> q \<le> n \<longrightarrow>
       page_ok e (creator_base creator) q \<and>
       (q < n \<longleftrightarrow>
          page_has_next e (creator_base creator) q \<and>
          (\<exists>h\<in>set (page_links e (creator_base creator) q).
             \<forall>q'. 1 \<le> q' \<and> q' < q \<longrightarrow> h \<notin> set (page_links e (creator_base creator) q')))) \<and>
    distinct res \<and>
    res = rev (remdups (rev (concat (map (page_links e (creator_base creator)) [1..<Suc n]))))"
proof -
  let ?base = "creator_base creator"
  have "fetch_loop e ?base 1 [] w = Some (Inr res, w')"
    using assms by (simp add: fetch_project_urls_def creator_base_def)
  from fetch_loop_Inr [OF this] obtain k where
    pg: "paginated e ?base 1 [] k"
    and tr: "w' = w\<lparr>trace := trace w @ map (\<lambda>q. Get (page_url ?base q)) [1..<Suc (1 + k)]\<rparr>"
    and res: "res = add_new [] (concat (map (page_links e ?base) [1..<Suc (1 + k)]))"
    by blast
  let ?n = "Suc k"
  have ok: "page_ok e ?base q" if "1 \<le> q \<and> q \<le> ?n" for q
    using pg that by (simp add: paginated_def)
  have cont: "page_has_next e ?base q \<and>
      (\<exists>h\<in>set (page_links e ?base q). \<forall>q'. 1 \<le> q' \<and> q' < q \<longrightarrow> h \<notin> set (page_links e ?base q'))"
    if "1 \<le> q \<and> q < ?n" for q
  proof -
    have "page_has_next e ?base q \<and>
        \<not> set (page_links e ?base q) \<subseteq> set [] \<union> (\<Union>q'\<in>{1..<q}. set (page_links e ?base q'))"
      using pg that by (simp add: paginated_def)
    then show ?thesis unfolding seen_from_Nil .
  qed
  have stop: "\<not> (page_has_next e ?base ?n \<and>
      (\<exists>h\<in>set (page_links e ?base ?n). \<forall>q'. 1 \<le> q' \<and> q' < ?n \<longrightarrow> h \<notin> set (page_links e ?base q')))"
  proof -
    have "\<not> page_has_next e ?base ?n \<or>
        set (page_links e ?base ?n) \<subseteq> set [] \<union> (\<Union>q'\<in>{1..<?n}. set (page_links e ?base q'))"
      using pg by (simp add: paginated_def)
    then show ?thesis using seen_from_Nil [of e ?base ?n] by blast
  qed
  have pages: "page_ok e ?base q \<and>
       (q < ?n \<longleftrightarrow>
          page_has_next e ?base q \<and>
          (\<exists>h\<in>set (page_links e ?base q). \<forall>q'. 1 \<le> q' \<and> q' < q \<longrightarrow> h \<notin> set (page_links e ?base q')))"
    if q: "1 \<le> q \<and> q \<le> ?n" for q
  proof (cases "q < ?n")
    case True
    then show ?thesis using ok [OF q] cont [of q] q by blast
  next
    case False
    then have "q = ?n" using q by simp
    then show ?thesis using ok [OF q] stop by blast
  qed
  have d: "distinct res" unfolding res by (rule distinct_add_new) simp
  have r: "res = rev (remdups (rev (concat (map (page_links e ?base) [1..<Suc ?n]))))"
    unfolding res add_new_Nil by simp
  have t: "w' = w\<lparr>trace := trace w @ map (\<lambda>q. Get (page_url ?base q)) [1..<Suc ?n]\<rparr>"
    unfolding tr by simp
  show ?thesis
  proof (intro exI [of _ ?n] conjI)
    show "1 \<le> ?n" by simp
    show "w' = w\<lparr>trace := trace w @ map (\<lambda>q. Get (page_url ?base q)) [1..<Suc ?n]\<rparr>" by (rule t)
    show "\<forall>q. 1 \<le> q \<and> q \<le> ?n \<longrightarrow>
       page_ok e ?base q \<and>
       (q < ?n \<longleftrightarrow>
          page_has_next e ?base q \<and>
          (\<exists>h\<in>set (page_links e ?base q). \<forall>q'. 1 \<le> q' \<and> q' < q \<longrightarrow> h \<notin> set (page_links e ?base q')))"
      using pages by (intro allI impI)
    show "distinct res" by (rule d)
    show "res = rev (remdups (rev (concat (map (page_links e ?base) [1..<Suc ?n]))))" by (rule r)
  qed
qed

lemma demo_page_urls:
  "page_url (creator_base ''dev'') (Suc 0) = ''https://dev.itch.io''"
  "page_url (creator_base ''dev'') 2 = ''https://dev.itch.io?page=2''"
  "page_url (creator_base ''nobody'') (Suc 0) = ''https://nobody.itch.io''"
  "page_url (creator_base ''broken'') (Suc 0) = ''https://broken.itch.io''"
  by (simp_all add: page_url_def creator_base_def str_nat_2)

lemma demo_pages:
  "page_ok demo (creator_base ''dev'') (Suc 0)" "page_ok demo (creator_base ''dev'') 2"
  "page_has_next demo (creator_base ''dev'') (Suc 0)"
  "\<not> page_has_next demo (creator_base ''dev'') 2"
  "page_links demo (creator_base ''dev'') (Suc 0) = [''https://dev.itch.io/a'']"
  "page_links demo (creator_base ''dev'') 2 = [''https://dev.itch.io/a'', ''https://dev.itch.io/b'']"
  "page_ok demo (creator_base ''nobody'') (Suc 0)"
  "\<not> page_has_next demo (creator_base ''nobody'') (Suc 0)"
  "page_links demo (creator_base ''nobody'') (Suc 0) = []"
  "page_ok demo (creator_base ''broken'') (Suc 0)"
  "\<not> page_has_next demo (creator_base ''broken'') (Suc 0)"
  "page_links demo (creator_base ''broken'') (Suc 0) = [''https://dev.itch.io/b'', ''https://broken.itch.io/x'']"
  by (simp_all add: page_ok_def page_has_next_def page_links_def demo_page_urls demo_http demo_parse
      hrefs_def listing_cells_def listing1_def listing2_def listing_empty_def listing_broken_def
      leaf_def select_one_def tag_get_def truthy_def)

lemma demo_listing_dev:
  "fetch_project_urls demo ''dev'' w =
     Some (Inr [''https://dev.itch.io/a'', ''https://dev.itch.io/b''],
           w\<lparr>trace := trace w @ [Get ''https://dev.itch.io'', Get ''https://dev.itch.io?page=2'']\<rparr>)"
proof -
  have "fetch_loop demo (creator_base ''dev'') (Suc 0) [] w =
     Some (Inr [''https://dev.itch.io/a'', ''https://dev.itch.io/b''],
           w\<lparr>trace := trace w @ [Get ''https://dev.itch.io'', Get ''https://dev.itch.io?page=2'']\<rparr>)"
    apply (subst fetch_loop_step)
    apply (simp add: demo_pages demo_page_urls)
    apply (subst fetch_loop_step)
    apply (simp add: demo_pages demo_page_urls numeral_2_eq_2 [symmetric])
    done
  then show ?thesis by (simp add: fetch_project_urls_def creator_base_def)
qed

lemma demo_listing_nobody:
  "fetch_project_urls demo ''nobody'' w =
     Some (Inr [], w\<lparr>trace := trace w @ [Get ''https://nobody.itch.io'']\<rparr>)"
proof -
  have "fetch_loop demo (creator_base ''nobody'') (Suc 0) [] w =
     Some (Inr [], w\<lparr>trace := trace w @ [Get ''https://nobody.itch.io'']\<rparr>)"
    by (subst fetch_loop_step) (simp add: demo_pages demo_page_urls)
  then show ?thesis by (simp add: fetch_project_urls_def creator_base_def)
qed

lemma demo_listing_broken:
  "fetch_project_urls demo ''broken'' w =
     Some (Inr [''https://dev.itch.io/b'', ''https://broken.itch.io/x''],
           w\<lparr>trace := trace w @ [Get ''https://broken.itch.io'']\<rparr>)"
proof -
  have "fetch_loop demo (creator_base ''broken'') (Suc 0) [] w =
     Some (Inr [''https://dev.itch.io/b'', ''https://broken.itch.io/x''],
           w\<lparr>trace := trace w @ [Get ''https://broken.itch.io'']\<rparr>)"
    by (subst fetch_loop_step) (simp add: demo_pages demo_page_urls)
  then show ?thesis by (simp add: fetch_project_urls_def creator_base_def)
qed

theorem fetch_project_urls_pagination_witness:
  "fetch_project_urls demo ''dev'' w0 =
     Some (Inr [''https://dev.itch.io/a'', ''https://dev.itch.io/b''],
           w0\<lparr>trace := trace w0 @ [Get ''https://dev.itch.io'', Get ''https://dev.itch.io?page=2'']\<rparr>) \<and>
   distinct [''https://dev.itch.io/a'', ''https://dev.itch.io/b''] \<and>
   (\<exists>n. 1 \<le> n \<and>
      [''https://dev.itch.io/a'', ''https://dev.itch.io/b''] =
        rev (remdups (rev (concat (map (page_links demo (creator_base ''dev'')) [1..<Suc n])))))"
proof -
  note inst = fetch_project_urls_pagination [OF demo_listing_dev [of w0]]
  from inst have 1: "distinct [''https://dev.itch.io/a'', ''https://dev.itch.io/b'']"
    by (elim exE conjE)
  from inst have 2: "\<exists>n. 1 \<le> n \<and>
      [''https://dev.itch.io/a'', ''https://dev.itch.io/b''] =
        rev (remdups (rev (concat (map (page_links demo (creator_base ''dev'')) [1..<Suc n]))))"
    by (elim exE conjE, intro exI conjI)
  show ?thesis using demo_listing_dev [of w0] 1 2 by (intro conjI)
qed

section \<open>Properties of the orchestrator\<close>

lemma progress_of_append: "progress_of (xs @ ys) = progress_of xs @ progress_of ys"
  by (induction xs rule: progress_of.induct) auto

lemma progress_of_asset: "list_all is_asset evs \<Longrightarrow> progress_of evs = []"
  by (induction evs rule: progress_of.induct) auto

lemma asset_not_text: "list_all is_asset evs \<Longrightarrow> WriteText p j \<notin> set evs"
  by (induction evs) auto

lemma metadata_not_index: "path_div p ''metadata.json'' \<noteq> path_div q ''index.json''"
  by (simp add: path_div_def)

lemma index_not_metadata: "path_div q ''index.json'' \<noteq> path_div p ''metadata.json''"
  by (simp add: path_div_def)

lemma list_all_Get: "list_all is_asset (map (\<lambda>q. Get (g q)) ps)"
  by (induction ps) auto

text \<open>Whatever the loop returns, it has only sent requests.\<close>

lemma fetch_loop_trace:
  assumes run: "fetch_loop e base p urls w = Some (r, w')"
  shows "\<exists>ps. w' = w\<lparr>trace := trace w @ map (\<lambda>q. Get (page_url base q)) ps\<rparr>"
proof -
  have "\<exists>ps. snd y = w\<lparr>trace := trace w @ map (\<lambda>q. Get (page_url base q)) ps\<rparr>"
    if "fetch_loop e base p urls w = Some y" for y
    using that
  proof (induction e base p urls w y rule: fetch_loop.raw_induct [rotated, consumes 1, case_names step])
    case (step f e base p urls w y)
    note body = step.hyps [unfolded loop_body_step]
    let ?w1 = "w\<lparr>trace := trace w @ [Get (page_url base p)]\<rparr>"
    show ?case
    proof (cases "page_ok e base p \<and> page_has_next e base p \<and> \<not> set (page_links e base p) \<subseteq> set urls")
      case False
      then have "snd y = w\<lparr>trace := trace w @ map (\<lambda>q. Get (page_url base q)) [p]\<rparr>"
        using body by (auto split: if_splits)
      then show ?thesis by blast
    next
      case True
      then have "f e base (p + 1) (add_new urls (page_links e base p)) ?w1 = Some y"
        using body by (auto split: if_splits)
      from step.IH [OF this] obtain ps where
        "snd y = ?w1\<lparr>trace := trace ?w1 @ map (\<lambda>q. Get (page_url base q)) ps\<rparr>" by blast
      then have "snd y = w\<lparr>trace := trace w @ map (\<lambda>q. Get (page_url base q)) (p # ps)\<rparr>"
        by simp
      then show ?thesis by blast
    qed
  qed
  from this [OF run] show ?thesis by simp
qed

lemma fetch_project_urls_trace:
  assumes "fetch_project_urls e creator w = Some (r, w')"
  shows "sink w' = sink w \<and> (\<exists>evs. trace w' = trace w @ evs \<and> list_all is_asset evs)"
proof -
  from assms obtain ps where
    "w' = w\<lparr>trace := trace w @ map (\<lambda>q. Get (page_url (''https://'' @ creator @ ''.itch.io'') q)) ps\<rparr>"
    unfolding fetch_project_urls_def using fetch_loop_trace by blast
  then show ?thesis using list_all_Get by auto
qed

text \<open>The loop over the projects, when it runs to the end.\<close>

lemma scrape_all_Inr:
  assumes "scrape_all e out cb urls acc w = (Inr results, w')"
  shows "\<exists>mds evs. results = acc @ mds \<and> map md_url mds = urls \<and>
    trace w' = trace w @ evs \<and>
    progress_of evs = (case cb of None \<Rightarrow> [] | Some f \<Rightarrow> map done_message mds) \<and>
    (\<forall>j. WriteText (path_div out ''index.json'') j \<notin> set evs) \<and>
    (\<forall>m\<in>set mds. WriteText (path_div (path_div out (md_slug m)) ''metadata.json'')
                    (metadata_json m) \<in> set evs)"
  using assms
proof (induction urls arbitrary: acc w)
  case Nil
  then show ?case by (cases cb) (auto simp: ret_Inr)
next
  case (Cons url urls)
  from Cons.prems obtain md w1 where
    p: "scrape_project e url out cb w = (Inr md, w1)"
    and rest: "scrape_all e out cb urls (acc @ [md]) w1 = (Inr results, w')"
    by (auto simp: bnd_Inr)
  from scrape_project_Inr [OF p] obtain evs0 where
    md: "md_url md = url" "md_slug md = slug_of url"
    and a: "list_all is_asset evs0"
    and t1: "trace w1 = trace w @ evs0 @
      [WriteText (path_div (path_div out (slug_of url)) ''metadata.json'') (metadata_json md)] @
      (case cb of None \<Rightarrow> [] | Some f \<Rightarrow> [Progress (done_message md)])"
    by blast
  from Cons.IH [OF rest] obtain mds evs where
    r: "results = (acc @ [md]) @ mds" "map md_url mds = urls"
    and t2: "trace w' = trace w1 @ evs"
    and pr: "progress_of evs = (case cb of None \<Rightarrow> [] | Some f \<Rightarrow> map done_message mds)"
    and ni: "\<forall>j. WriteText (path_div out ''index.json'') j \<notin> set evs"
    and wr: "\<forall>m\<in>set mds. WriteText (path_div (path_div out (md_slug m)) ''metadata.json'')
                    (metadata_json m) \<in> set evs"
    by blast
  let ?evs1 = "evs0 @
      [WriteText (path_div (path_div out (slug_of url)) ''metadata.json'') (metadata_json md)] @
      (case cb of None \<Rightarrow> [] | Some f \<Rightarrow> [Progress (done_message md)])"
  have 1: "results = acc @ (md # mds)" using r by simp
  have 2: "map md_url (md # mds) = url # urls" using r md by simp
  have 3: "trace w' = trace w @ (?evs1 @ evs)" using t1 t2 by simp
  have 4: "progress_of (?evs1 @ evs) =
      (case cb of None \<Rightarrow> [] | Some f \<Rightarrow> map done_message (md # mds))"
    using pr by (cases cb) (simp_all add: progress_of_append progress_of_asset [OF a])
  have 5: "\<forall>j. WriteText (path_div out ''index.json'') j \<notin> set (?evs1 @ evs)"
  proof (intro allI)
    fix j
    have "WriteText (path_div out ''index.json'') j \<notin> set evs0"
      by (rule asset_not_text [OF a])
    moreover have "WriteText (path_div out ''index.json'') j \<notin> set evs"
      using ni by simp
    moreover have "WriteText (path_div out ''index.json'') j \<noteq>
        WriteText (path_div (path_div out (slug_of url)) ''metadata.json'') (metadata_json md)"
      by (simp add: index_not_metadata)
    ultimately show "WriteText (path_div out ''index.json'') j \<notin> set (?evs1 @ evs)"
      by (cases cb) simp_all
  qed
  have 6: "\<forall>m\<in>set (md # mds). WriteText (path_div (path_div out (md_slug m)) ''metadata.json'')
                    (metadata_json m) \<in> set (?evs1 @ evs)"
    using wr md by auto
  show ?case
    using 1 2 3 4 5 6 by (intro exI [of _ "md # mds"] exI [of _ "?evs1 @ evs"] conjI)
qed

text \<open>Whatever the project loop does, it never writes \<open>index.json\<close>.\<close>

lemma extends_scrape_all:
  "extends (\<lambda>ev. \<forall>j. ev \<noteq> WriteText (path_div out ''index.json'') j)
     (scrape_all e out cb urls acc)"
proof (induction urls arbitrary: acc)
  case Nil
  then show ?case by (simp add: extends_ret)
next
  case (Cons url urls)
  have "extends (\<lambda>ev. \<forall>j. ev \<noteq> WriteText (path_div out ''index.json'') j)
      (scrape_project e url out cb)"
  proof (rule extends_scrape_project)
    fix ev assume "is_asset ev"
    then show "\<forall>j. ev \<noteq> WriteText (path_div out ''index.json'') j" by (cases ev) auto
  qed (auto simp: metadata_not_index)
  then show ?case using Cons by (auto intro: extends_bnd)
qed

text \<open>A project whose page cannot be fetched stops the loop with an error.\<close>

lemma scrape_all_fails:
  assumes "u \<in> set urls"
    and "\<not> (\<exists>resp. http e u = Some resp \<and> 200 \<le> status resp \<and> status resp < 300)"
  shows "\<exists>exn w'. scrape_all e out cb urls acc w = (Inl exn, w')"
  using assms(1)
proof (induction urls arbitrary: acc w)
  case Nil
  then show ?case by simp
next
  case (Cons url urls)
  obtain r w1 where p: "scrape_project e url out cb w = (r, w1)"
    by (cases "scrape_project e url out cb w")
  show ?case
  proof (cases r)
    case (Inl exn)
    then show ?thesis using p by (simp add: bnd_def)
  next
    case (Inr md)
    then have "url \<noteq> u" using scrape_project_Inr [of e url out cb w md w1] p assms(2) by blast
    then have "u \<in> set urls" using Cons.prems by simp
    from Cons.IH [OF this] show ?thesis using p Inr by (simp add: bnd_def)
  qed
qed

lemma scrape_all_append:
  "scrape_all e out cb (pre @ rest) acc w =
     (case scrape_all e out cb pre acc w of
        (Inl exn, w1) \<Rightarrow> (Inl exn, w1)
      | (Inr mds, w1) \<Rightarrow> scrape_all e out cb rest mds w1)"
  by (induction pre arbitrary: acc w) (auto simp: ret_def bnd_def split: sum.splits prod.splits)

lemma list_all_not_index:
  "list_all (\<lambda>ev. \<forall>j. ev \<noteq> WriteText p j) evs \<longleftrightarrow> (\<forall>j. WriteText p j \<notin> set evs)"
  by (auto simp: list_all_iff)

lemma write_text_Inl: "write_text e p j w = (Inl exn, w') \<Longrightarrow> w' = w"
  by (auto simp: write_text_def emit_def raise_def split: if_splits)

lemma mkdir_Inl: "mkdir e p w = (Inl exn, w') \<Longrightarrow> w' = w"
  by (auto simp: mkdir_def emit_def raise_def split: if_splits)

lemma bnd_assoc: "bnd (bnd m f) g = bnd m (\<lambda>x. bnd (f x) g)"
  by (rule HOL.ext) (auto simp: bnd_def split: prod.splits sum.splits)

text \<open>What \<open>scrape_listed\<close> has done when it returns the records.\<close>

lemma scrape_listed_Inr:
  assumes "scrape_listed e creator out cb urls w = (Inr results, w')"
  shows "urls \<noteq> [] \<and> map md_url results = urls \<and>
    (\<exists>evs. trace w' = trace w @ evs @
              [WriteText (path_div out ''index.json'') (index_json creator results)] \<and>
       progress_of evs =
         (case cb of None \<Rightarrow> []
          | Some f \<Rightarrow> (''__total__'' @ str_nat (length urls)) # map done_message results) \<and>
       (\<forall>j. WriteText (path_div out ''index.json'') j \<notin> set evs) \<and>
       (\<forall>m\<in>set results. WriteText (path_div (path_div out (md_slug m)) ''metadata.json'')
                          (metadata_json m) \<in> set evs))"
proof -
  from assms obtain w1 w2 w3 where
    ne: "urls \<noteq> []"
    and cp: "call_progress cb (''__total__'' @ str_nat (length urls)) w = (Inr (), w1)"
    and sa: "scrape_all e out cb urls [] w1 = (Inr results, w2)"
    and wt: "write_text e (path_div out ''index.json'') (index_json creator results) w2 = (Inr (), w')"
    unfolding scrape_listed_def
    by (auto simp: bnd_Inr ret_Inr raise_def split: if_splits)
  have t1: "trace w1 = trace w @
      (case cb of None \<Rightarrow> [] | Some f \<Rightarrow> [Progress (''__total__'' @ str_nat (length urls))])"
    using cp by (cases cb) (auto simp: call_progress_Inr)
  from scrape_all_Inr [OF sa] obtain evs where
    u: "map md_url results = urls"
    and t2: "trace w2 = trace w1 @ evs"
    and pr: "progress_of evs = (case cb of None \<Rightarrow> [] | Some f \<Rightarrow> map done_message results)"
    and ni: "\<forall>j. WriteText (path_div out ''index.json'') j \<notin> set evs"
    and wr: "\<forall>m\<in>set results. WriteText (path_div (path_div out (md_slug m)) ''metadata.json'')
                          (metadata_json m) \<in> set evs"
    by auto
  have t3: "trace w' = trace w2 @ [WriteText (path_div out ''index.json'') (index_json creator results)]"
    using wt by (simp add: write_text_Inr)
  let ?evs = "(case cb of None \<Rightarrow> [] | Some f \<Rightarrow> [Progress (''__total__'' @ str_nat (length urls))]) @ evs"
  have 1: "trace w' = trace w @ ?evs @
      [WriteText (path_div out ''index.json'') (index_json creator results)]"
    using t1 t2 t3 by simp
  have 2: "progress_of ?evs =
      (case cb of None \<Rightarrow> []
       | Some f \<Rightarrow> (''__total__'' @ str_nat (length urls)) # map done_message results)"
    using pr by (cases cb) (simp_all add: progress_of_append)
  have 3: "\<forall>j. WriteText (path_div out ''index.json'') j \<notin> set ?evs"
    using ni by (cases cb) simp_all
  have 4: "\<forall>m\<in>set results. WriteText (path_div (path_div out (md_slug m)) ''metadata.json'')
                          (metadata_json m) \<in> set ?evs"
    using wr by simp
  show ?thesis
    using ne u 1 2 3 4 by (intro conjI exI [of _ ?evs])
qed

text \<open>When \<open>scrape_listed\<close> raises, it has not written \<open>index.json\<close>.\<close>

lemma scrape_listed_Inl:
  assumes "scrape_listed e creator out cb urls w = (Inl exn, w')"
  shows "\<exists>evs. trace w' = trace w @ evs \<and> (\<forall>j. WriteText (path_div out ''index.json'') j \<notin> set evs)"
proof -
  let ?P = "\<lambda>ev. \<forall>j. ev \<noteq> WriteText (path_div out ''index.json'') j"
  let ?front = "bnd (if urls = []
          then raise (ValueError (''No public projects found for '' @ [CHR 0x27] @ creator @ [CHR 0x27]))
          else ret ()) (\<lambda>_.
     bnd (call_progress cb (''__total__'' @ str_nat (length urls))) (\<lambda>_.
     scrape_all e out cb urls []))"
  have xt: "extends ?P ?front"
    by (intro extends_bnd extends_call_progress extends_scrape_all)
      (simp_all add: extends_raise extends_ret)
  have split: "scrape_listed e creator out cb urls =
      bnd ?front (\<lambda>results.
        bnd (write_text e (path_div out ''index.json'') (index_json creator results)) (\<lambda>_. ret results))"
    unfolding scrape_listed_def by (simp only: bnd_assoc)
  obtain r w3 where f: "?front w = (r, w3)" by (cases "?front w")
  from extendsD [OF xt f] obtain evs where
    evs: "trace w3 = trace w @ evs" "list_all ?P evs" by blast
  have "w' = w3"
  proof (cases r)
    case (Inl x)
    then show ?thesis using assms f unfolding split by (simp add: bnd_def)
  next
    case (Inr results)
    then have "bnd (write_text e (path_div out ''index.json'') (index_json creator results))
        (\<lambda>_. ret results) w3 = (Inl exn, w')"
      using assms f unfolding split by (simp add: bnd_def)
    then have "write_text e (path_div out ''index.json'') (index_json creator results) w3 = (Inl exn, w')"
      by (auto simp: bnd_Inl ret_def)
    then show ?thesis by (rule write_text_Inl)
  qed
  then show ?thesis using evs by (auto simp: list_all_not_index)
qed

text \<open>The whole run: what it has done when it returns, and when it raises.\<close>

lemma scrape_creator_Inr:
  assumes "scrape_creator e creator out cb w = Some (Inr results, w')"
  shows "\<exists>w2 evs.
    fetch_project_urls e creator (w\<lparr>trace := trace w @ [Mkdir out]\<rparr>) =
      Some (Inr (map md_url results), w2) \<and>
    results \<noteq> [] \<and>
    trace w' = trace w @ evs @
      [WriteText (path_div out ''index.json'') (index_json creator results)] \<and>
    progress_of evs =
      (case cb of None \<Rightarrow> []
       | Some f \<Rightarrow> (''__total__'' @ str_nat (length results)) # map done_message results) \<and>
    (\<forall>j. WriteText (path_div out ''index.json'') j \<notin> set evs) \<and>
    (\<forall>m\<in>set results. WriteText (path_div (path_div out (md_slug m)) ''metadata.json'')
                       (metadata_json m) \<in> set evs)"
proof -
  let ?w1 = "w\<lparr>trace := trace w @ [Mkdir out]\<rparr>"
  from assms obtain urls w2 where
    mk: "mkdir e out w = (Inr (), ?w1)"
    and fu: "fetch_project_urls e creator ?w1 = Some (Inr urls, w2)"
    and sl: "scrape_listed e creator out cb urls w2 = (Inr results, w')"
    unfolding scrape_creator_def
    by (auto simp: mkdir_def emit_def raise_def split: if_splits option.splits sum.splits prod.splits)
  from fetch_project_urls_trace [OF fu] obtain gets where
    g: "trace w2 = trace ?w1 @ gets" "list_all is_asset gets" by blast
  from scrape_listed_Inr [OF sl] obtain evs where
    ne: "urls \<noteq> []" and u: "map md_url results = urls"
    and t: "trace w' = trace w2 @ evs @
              [WriteText (path_div out ''index.json'') (index_json creator results)]"
    and pr: "progress_of evs =
         (case cb of None \<Rightarrow> []
          | Some f \<Rightarrow> (''__total__'' @ str_nat (length urls)) # map done_message results)"
    and ni: "\<forall>j. WriteText (path_div out ''index.json'') j \<notin> set evs"
    and wr: "\<forall>m\<in>set results. WriteText (path_div (path_div out (md_slug m)) ''metadata.json'')
                          (metadata_json m) \<in> set evs"
    by auto
  have len: "length urls = length results" using u by (metis length_map)
  let ?evs = "Mkdir out # gets @ evs"
  have 0: "fetch_project_urls e creator ?w1 = Some (Inr (map md_url results), w2)"
    using fu u by simp
  have 1: "results \<noteq> []" using ne u by auto
  have 2: "trace w' = trace w @ ?evs @
      [WriteText (path_div out ''index.json'') (index_json creator results)]"
    using t g by simp
  have 3: "progress_of ?evs =
      (case cb of None \<Rightarrow> []
       | Some f \<Rightarrow> (''__total__'' @ str_nat (length results)) # map done_message results)"
    using pr len by (cases cb) (simp_all add: progress_of_append progress_of_asset [OF g(2)])
  have 4: "\<forall>j. WriteText (path_div out ''index.json'') j \<notin> set ?evs"
    using ni asset_not_text [OF g(2)] by simp
  have 5: "\<forall>m\<in>set results. WriteText (path_div (path_div out (md_slug m)) ''metadata.json'')
                       (metadata_json m) \<in> set ?evs"
    using wr by simp
  show ?thesis
    using 0 1 2 3 4 5 by (intro exI [of _ w2] exI [of _ ?evs] conjI)
qed

lemma scrape_creator_Inl:
  assumes "scrape_creator e creator out cb w = Some (Inl exn, w')"
  shows "\<exists>evs. trace w' = trace w @ evs \<and> (\<forall>j. WriteText (path_div out ''index.json'') j \<notin> set evs)"
proof -
  obtain r1 w1 where mk: "mkdir e out w = (r1, w1)" by (cases "mkdir e out w")
  show ?thesis
  proof (cases r1)
    case (Inl x)
    then have "w' = w" using assms mk mkdir_Inl [of e out w x w1]
      by (simp add: scrape_creator_def)
    then show ?thesis by simp
  next
    case (Inr u)
    then have w1: "trace w1 = trace w @ [Mkdir out]"
      using mk by (simp add: mkdir_Inr)
    from assms mk Inr obtain r2 w2 where
      fu: "fetch_project_urls e creator w1 = Some (r2, w2)"
      by (cases "fetch_project_urls e creator w1") (auto simp: scrape_creator_def)
    from fetch_project_urls_trace [OF fu] obtain gets where
      g: "trace w2 = trace w1 @ gets" "list_all is_asset gets" by blast
    have front: "\<forall>j. WriteText (path_div out ''index.json'') j \<notin> set (Mkdir out # gets)"
      using asset_not_text [OF g(2)] by simp
    show ?thesis
    proof (cases r2)
      case (Inl x)
      then have "w' = w2" using assms mk Inr fu by (simp add: scrape_creator_def)
      then have "trace w' = trace w @ (Mkdir out # gets)" using g w1 by simp
      then show ?thesis using front by blast
    next
      case (Inr urls)
      then have "scrape_listed e creator out cb urls w2 = (Inl exn, w')"
        using assms mk \<open>r1 = Inr u\<close> fu by (simp add: scrape_creator_def)
      from scrape_listed_Inl [OF this] obtain evs where
        e: "trace w' = trace w2 @ evs" "\<forall>j. WriteText (path_div out ''index.json'') j \<notin> set evs"
        by blast
      have "trace w' = trace w @ ((Mkdir out # gets) @ evs)" using e g w1 by simp
      moreover have "\<forall>j. WriteText (path_div out ''index.json'') j \<notin> set ((Mkdir out # gets) @ evs)"
        using e front by simp
      ultimately show ?thesis by (intro exI [of _ "(Mkdir out # gets) @ evs"] conjI)
    qed
  qed
qed

section \<open>The example runs, evaluated\<close>

lemma on_progress_marker:
  "on_progress (''__total__'' @ str_nat k) j = (Inr (), j\<lparr>total := int k\<rparr>)"
proof -
  have "startswith ''__total__'' (''__total__'' @ str_nat k)"
    by (simp add: startswith_def)
  then show ?thesis
    unfolding on_progress_def by (simp only: total_marker_parses if_True option.case)
qed

lemma demo_project_x:
  "scrape_project demo ''https://broken.itch.io/x'' [''out''] (Some on_progress) w =
     (Inl (RequestError ''https://broken.itch.io/x''),
      w\<lparr>trace := trace w @ [Get ''https://broken.itch.io/x'']\<rparr>)"
  by (simp add: scrape_project_def Let_def prog_defs demo_http)

lemma str_nat_Suc_Suc_0: "str_nat (Suc (Suc 0)) = ''2''"
  using str_nat_2 by (simp add: numeral_2_eq_2)

lemma on_progress_total_2: "on_progress ''__total__2'' j = (Inr (), j\<lparr>total := 2\<rparr>)"
  using on_progress_marker [of 2 j] by (simp add: str_nat_2)

lemma demo_run_dev:
  "scrape_creator demo ''dev'' [''out''] (Some on_progress) w0 =
     Some (Inr [md_a, md_b],
           \<lparr>trace = trace_dev, sink = job0\<lparr>progress := [''Game A'', ''b''], total := 2\<rparr>\<rparr>)"
  unfolding scrape_creator_def scrape_listed_def
  by (simp add: mkdir_def demo_ok emit_def demo_listing_dev bnd_def ret_def call_progress_def
      str_nat_Suc_Suc_0 on_progress_total_2 demo_project_a demo_project_b write_text_def
      path_div_def w0_def trace_dev_def job0_def)

lemma demo_run_broken:
  "scrape_creator demo ''broken'' [''out''] (Some on_progress) w0 =
     Some (Inl (RequestError ''https://broken.itch.io/x''),
           \<lparr>trace = trace_broken, sink = job0\<lparr>progress := [''b''], total := 2\<rparr>\<rparr>)"
  unfolding scrape_creator_def scrape_listed_def
  by (simp add: mkdir_def demo_ok emit_def demo_listing_broken bnd_def ret_def call_progress_def
      str_nat_Suc_Suc_0 on_progress_total_2 demo_project_x demo_project_b write_text_def
      path_div_def w0_def trace_broken_def job0_def)

lemma demo_run_nobody:
  "scrape_creator demo ''nobody'' [''out''] (Some on_progress) w0 =
     Some (Inl (ValueError (''No public projects found for '' @ [CHR 0x27] @ ''nobody'' @ [CHR 0x27])),
           \<lparr>trace = [Mkdir [''out''], Get ''https://nobody.itch.io''], sink = job0\<rparr>)"
  unfolding scrape_creator_def scrape_listed_def
  by (simp add: mkdir_def demo_ok emit_def demo_listing_nobody bnd_def raise_def w0_def)

section \<open>Fatal errors of a run\<close>

lemma scrape_listed_fails:
  assumes "u \<in> set urls"
    and "\<not> (\<exists>resp. http e u = Some resp \<and> 200 \<le> status resp \<and> status resp < 300)"
  shows "\<exists>exn w'. scrape_listed e creator out cb urls w = (Inl exn, w')"
proof -
  have ne: "urls \<noteq> []" using assms(1) by auto
  obtain r1 w1 where cp: "call_progress cb (''__total__'' @ str_nat (length urls)) w = (r1, w1)"
    by (cases "call_progress cb (''__total__'' @ str_nat (length urls)) w")
  show ?thesis
  proof (cases r1)
    case (Inl exn)
    then show ?thesis using ne cp by (simp add: scrape_listed_def bnd_def ret_def)
  next
    case (Inr x)
    from scrape_all_fails [OF assms, of out cb "[]" w1] obtain exn w' where
      "scrape_all e out cb urls [] w1 = (Inl exn, w')" by blast
    then show ?thesis using ne cp Inr by (simp add: scrape_listed_def bnd_def ret_def)
  qed
qed

text \<open>
  C5. With the output directory made and the listing read: an empty list of project URLs
  makes \<^verbatim>\<open>scrape_creator\<close> raise \<open>ValueError\<close> with the "No public projects found"
  message; a listed project whose page cannot be fetched (the request raises or answers
  outside 2xx) makes the run raise. Whenever the run raises, it has only appended to the
  trace and has not written \<open>index.json\<close>. What the project loop had written for the
  projects before the failure stays in the trace.
\<close>

theorem scrape_creator_fatal:
  "(mkdir_ok e out \<and>
    fetch_project_urls e creator (w\<lparr>trace := trace w @ [Mkdir out]\<rparr>) = Some (Inr [], w2) \<longrightarrow>
      scrape_creator e creator out cb w =
        Some (Inl (ValueError (''No public projects found for '' @ [CHR 0x27] @ creator @ [CHR 0x27])), w2)) \<and>
   (mkdir_ok e out \<and>
    fetch_project_urls e creator (w\<lparr>trace := trace w @ [Mkdir out]\<rparr>) = Some (Inr urls, w2) \<and>
    u \<in> set urls \<and>
    \<not> (\<exists>resp. http e u = Some resp \<and> 200 \<le> status resp \<and> status resp < 300) \<longrightarrow>
      (\<exists>exn w'. scrape_creator e creator out cb w = Some (Inl exn, w'))) \<and>
   (scrape_creator e creator out cb w = Some (Inl exn, w') \<longrightarrow>
      (\<exists>evs. trace w' = trace w @ evs \<and>
             (\<forall>j. WriteText (path_div out ''index.json'') j \<notin> set evs))) \<and>
   (scrape_all e out cb pre [] w3 = (Inr mds, w4) \<and>
    scrape_all e out cb (pre @ rest) [] w3 = (r, w5) \<longrightarrow>
      (\<exists>evs. trace w5 = trace w4 @ evs) \<and>
      (\<forall>m\<in>set mds. WriteText (path_div (path_div out (md_slug m)) ''metadata.json'')
                      (metadata_json m) \<in> set (trace w5)))"
proof (intro conjI impI)
  assume a: "mkdir_ok e out \<and>
    fetch_project_urls e creator (w\<lparr>trace := trace w @ [Mkdir out]\<rparr>) = Some (Inr [], w2)"
  then show "scrape_creator e creator out cb w =
        Some (Inl (ValueError (''No public projects found for '' @ [CHR 0x27] @ creator @ [CHR 0x27])), w2)"
    by (simp add: scrape_creator_def scrape_listed_def mkdir_def emit_def bnd_def raise_def)
next
  assume a: "mkdir_ok e out \<and>
    fetch_project_urls e creator (w\<lparr>trace := trace w @ [Mkdir out]\<rparr>) = Some (Inr urls, w2) \<and>
    u \<in> set urls \<and>
    \<not> (\<exists>resp. http e u = Some resp \<and> 200 \<le> status resp \<and> status resp < 300)"
  then obtain exn w' where "scrape_listed e creator out cb urls w2 = (Inl exn, w')"
    using scrape_listed_fails [of u urls e creator out cb w2] by blast
  then have "scrape_creator e creator out cb w = Some (Inl exn, w')"
    using a by (simp add: scrape_creator_def mkdir_def emit_def)
  then show "\<exists>exn w'. scrape_creator e creator out cb w = Some (Inl exn, w')" by blast
next
  assume "scrape_creator e creator out cb w = Some (Inl exn, w')"
  then show "\<exists>evs. trace w' = trace w @ evs \<and>
             (\<forall>j. WriteText (path_div out ''index.json'') j \<notin> set evs)"
    by (rule scrape_creator_Inl)
next
  assume a: "scrape_all e out cb pre [] w3 = (Inr mds, w4) \<and>
    scrape_all e out cb (pre @ rest) [] w3 = (r, w5)"
  then have later: "scrape_all e out cb rest mds w4 = (r, w5)"
    by (auto simp: scrape_all_append)
  from extendsD [OF extends_scrape_all later] obtain evs where
    evs: "trace w5 = trace w4 @ evs" by blast
  then show "\<exists>evs. trace w5 = trace w4 @ evs" by blast
  from a scrape_all_Inr [of e out cb pre "[]" w3 mds w4] obtain evs0 where
    "trace w4 = trace w3 @ evs0"
    "\<forall>m\<in>set mds. WriteText (path_div (path_div out (md_slug m)) ''metadata.json'')
                      (metadata_json m) \<in> set evs0"
    by auto
  then show "\<forall>m\<in>set mds. WriteText (path_div (path_div out (md_slug m)) ''metadata.json'')
                      (metadata_json m) \<in> set (trace w5)"
    using evs by simp
qed

theorem scrape_creator_fatal_witness:
  "scrape_creator demo ''nobody'' [''out''] (Some on_progress) w0 =
     Some (Inl (ValueError (''No public projects found for '' @ [CHR 0x27] @ ''nobody'' @ [CHR 0x27])),
           \<lparr>trace = [Mkdir [''out''], Get ''https://nobody.itch.io''], sink = job0\<rparr>) \<and>
   http demo ''https://broken.itch.io/x'' = None \<and>
   (\<exists>exn w'. scrape_creator demo ''broken'' [''out''] (Some on_progress) w0 = Some (Inl exn, w')) \<and>
   (\<forall>j. WriteText [''out'', ''index.json''] j \<notin> set trace_broken) \<and>
   WriteText [''out'', ''b'', ''metadata.json''] (metadata_json md_b) \<in> set trace_broken"
proof -
  let ?wn = "\<lparr>trace = [Mkdir [''out''], Get ''https://nobody.itch.io''], sink = job0\<rparr>"
  let ?wb = "\<lparr>trace = trace_broken, sink = job0\<lparr>progress := [''b''], total := 2\<rparr>\<rparr>"
  let ?w1 = "w0\<lparr>trace := trace w0 @ [Mkdir [''out'']]\<rparr>"
  let ?w2 = "?w1\<lparr>trace := trace ?w1 @ [Get ''https://broken.itch.io'']\<rparr>"
  have n: "fetch_project_urls demo ''nobody'' ?w1 = Some (Inr [], ?wn)"
    by (simp add: demo_listing_nobody w0_def)
  have b: "fetch_project_urls demo ''broken'' ?w1 =
      Some (Inr [''https://dev.itch.io/b'', ''https://broken.itch.io/x''], ?w2)"
    by (rule demo_listing_broken)
  have x: "http demo ''https://broken.itch.io/x'' = None" by (rule demo_http)
  have 1: "scrape_creator demo ''nobody'' [''out''] (Some on_progress) w0 =
     Some (Inl (ValueError (''No public projects found for '' @ [CHR 0x27] @ ''nobody'' @ [CHR 0x27])), ?wn)"
    by (rule scrape_creator_fatal [where e = demo and out = "[''out'']" and creator = "''nobody''"
          and w = w0 and ?w2.0 = ?wn and cb = "Some on_progress", THEN conjunct1, THEN mp])
      (intro conjI demo_ok n)
  have 2: "\<exists>exn w'. scrape_creator demo ''broken'' [''out''] (Some on_progress) w0 = Some (Inl exn, w')"
    by (rule scrape_creator_fatal [where e = demo and out = "[''out'']" and creator = "''broken''"
          and w = w0 and ?w2.0 = ?w2 and cb = "Some on_progress"
          and urls = "[''https://dev.itch.io/b'', ''https://broken.itch.io/x'']"
          and u = "''https://broken.itch.io/x''", THEN conjunct2, THEN conjunct1, THEN mp])
      (intro conjI demo_ok b, simp, simp add: x)
  have "\<exists>evs. trace ?wb = trace w0 @ evs \<and>
      (\<forall>j. WriteText (path_div [''out''] ''index.json'') j \<notin> set evs)"
    by (rule scrape_creator_fatal [where e = demo and out = "[''out'']" and creator = "''broken''"
          and w = w0 and cb = "Some on_progress"
          and exn = "RequestError ''https://broken.itch.io/x''" and w' = ?wb,
          THEN conjunct2, THEN conjunct2, THEN conjunct1, THEN mp])
      (rule demo_run_broken)
  then have 3: "\<forall>j. WriteText [''out'', ''index.json''] j \<notin> set trace_broken"
    by (simp add: w0_def path_div_def)
  have 4: "WriteText [''out'', ''b'', ''metadata.json''] (metadata_json md_b) \<in> set trace_broken"
    by (simp add: trace_broken_def trace_b_def)
  show ?thesis using 1 x 2 3 4 by (intro conjI)
qed

section \<open>A run that completes\<close>

text \<open>
  C6. When a run completes, the calls of the progress callback during the run are, in
  order: one call with \<open>__total__\<close> followed by the number of discovered URLs, then one
  call per project in discovery order with the project's title, or its slug when the title
  is empty. The records are those of the discovered URLs, in their order. Without a
  callback there is no call.
\<close>

theorem progress_messages_in_order:
  assumes "scrape_creator e creator out cb w = Some (Inr results, w')"
  shows "progress_of (trace w') = progress_of (trace w) @
      (case cb of
         None \<Rightarrow> []
       | Some f \<Rightarrow>
           (''__total__'' @ str_nat (length results)) #
           map (\<lambda>m. if md_title m \<noteq> [] then md_title m else md_slug m) results) \<and>
    (\<exists>w2. fetch_project_urls e creator (w\<lparr>trace := trace w @ [Mkdir out]\<rparr>) =
            Some (Inr (map md_url results), w2))"
proof -
  from scrape_creator_Inr [OF assms] obtain w2 evs where
    fu: "fetch_project_urls e creator (w\<lparr>trace := trace w @ [Mkdir out]\<rparr>) =
      Some (Inr (map md_url results), w2)"
    and t: "trace w' = trace w @ evs @
      [WriteText (path_div out ''index.json'') (index_json creator results)]"
    and pr: "progress_of evs =
      (case cb of None \<Rightarrow> []
       | Some f \<Rightarrow> (''__total__'' @ str_nat (length results)) # map done_message results)"
    by blast
  have dm: "done_message = (\<lambda>m. if md_title m \<noteq> [] then md_title m else md_slug m)"
    by (rule HOL.ext) (simp add: done_message_def)
  have "progress_of (trace w') = progress_of (trace w) @ progress_of evs"
    unfolding t by (simp add: progress_of_append)
  then have "progress_of (trace w') = progress_of (trace w) @
      (case cb of
         None \<Rightarrow> []
       | Some f \<Rightarrow>
           (''__total__'' @ str_nat (length results)) #
           map (\<lambda>m. if md_title m \<noteq> [] then md_title m else md_slug m) results)"
    unfolding pr dm .
  then show ?thesis using fu by blast
qed

theorem progress_messages_in_order_witness:
  "scrape_creator demo ''dev'' [''out''] (Some on_progress) w0 =
     Some (Inr [md_a, md_b],
           \<lparr>trace = trace_dev, sink = job0\<lparr>progress := [''Game A'', ''b''], total := 2\<rparr>\<rparr>) \<and>
   progress_of trace_dev = [''__total__2'', ''Game A'', ''b'']"
proof -
  have "progress_of (trace \<lparr>trace = trace_dev, sink = job0\<lparr>progress := [''Game A'', ''b''], total := 2\<rparr>\<rparr>) =
      progress_of (trace w0) @
      (case Some on_progress of
         None \<Rightarrow> []
       | Some f \<Rightarrow>
           (''__total__'' @ str_nat (length [md_a, md_b])) #
           map (\<lambda>m. if md_title m \<noteq> [] then md_title m else md_slug m) [md_a, md_b])"
    by (rule progress_messages_in_order [OF demo_run_dev, THEN conjunct1])
  then have "progress_of trace_dev = [''__total__2'', ''Game A'', ''b'']"
    by (simp add: w0_def str_nat_Suc_Suc_0 md_a_def md_b_def)
  then show ?thesis using demo_run_dev by (intro conjI)
qed

text \<open>
  C9. When a run completes, its last event is the write of \<open>index.json\<close> under the output
  directory, and no earlier event of the run writes that file. The document is the object
  with \<open>creator\<close>, \<open>project_count\<close>, the number of records, and \<open>projects\<close>, the records
  in order; the records are those of the discovered URLs in discovery order, and each
  record's \<open>metadata.json\<close> was written before.
\<close>

theorem index_written_once_at_end:
  assumes "scrape_creator e creator out cb w = Some (Inr results, w')"
  shows "\<exists>evs w2.
    trace w' = trace w @ evs @
      [WriteText (path_div out ''index.json'')
         (JObj [(''creator'', JStr creator),
                (''project_count'', JInt (int (length results))),
                (''projects'', JArr (map metadata_json results))])] \<and>
    (\<forall>j. WriteText (path_div out ''index.json'') j \<notin> set evs) \<and>
    (\<forall>m\<in>set results. WriteText (path_div (path_div out (md_slug m)) ''metadata.json'')
                       (metadata_json m) \<in> set evs) \<and>
    fetch_project_urls e creator (w\<lparr>trace := trace w @ [Mkdir out]\<rparr>) =
      Some (Inr (map md_url results), w2)"
proof -
  from scrape_creator_Inr [OF assms] obtain w2 evs where
    fu: "fetch_project_urls e creator (w\<lparr>trace := trace w @ [Mkdir out]\<rparr>) =
      Some (Inr (map md_url results), w2)"
    and t: "trace w' = trace w @ evs @
      [WriteText (path_div out ''index.json'') (index_json creator results)]"
    and ni: "\<forall>j. WriteText (path_div out ''index.json'') j \<notin> set evs"
    and wr: "\<forall>m\<in>set results. WriteText (path_div (path_div out (md_slug m)) ''metadata.json'')
                       (metadata_json m) \<in> set evs"
    by blast
  show ?thesis
    using t ni wr fu unfolding index_json_def by (intro exI [of _ evs] exI [of _ w2] conjI)
qed

theorem index_written_once_at_end_witness:
  "scrape_creator demo ''dev'' [''out''] (Some on_progress) w0 =
     Some (Inr [md_a, md_b],
           \<lparr>trace = trace_dev, sink = job0\<lparr>progress := [''Game A'', ''b''], total := 2\<rparr>\<rparr>) \<and>
   (\<exists>evs. trace_dev = evs @
      [WriteText [''out'', ''index.json'']
         (JObj [(''creator'', JStr ''dev''), (''project_count'', JInt 2),
                (''projects'', JArr [metadata_json md_a, metadata_json md_b])])] \<and>
      (\<forall>j. WriteText [''out'', ''index.json''] j \<notin> set evs))"
proof -
  from index_written_once_at_end [OF demo_run_dev] obtain evs where
    "trace \<lparr>trace = trace_dev, sink = job0\<lparr>progress := [''Game A'', ''b''], total := 2\<rparr>\<rparr> =
       trace w0 @ evs @
       [WriteText (path_div [''out''] ''index.json'')
         (JObj [(''creator'', JStr ''dev''),
                (''project_count'', JInt (int (length [md_a, md_b]))),
                (''projects'', JArr (map metadata_json [md_a, md_b]))])]"
    "\<forall>j. WriteText (path_div [''out''] ''index.json'') j \<notin> set evs"
    by (elim exE conjE)
  then have "trace_dev = evs @
      [WriteText [''out'', ''index.json'']
         (JObj [(''creator'', JStr ''dev''), (''project_count'', JInt 2),
                (''projects'', JArr [metadata_json md_a, metadata_json md_b])])] \<and>
      (\<forall>j. WriteText [''out'', ''index.json''] j \<notin> set evs)"
    by (simp add: w0_def path_div_def)
  then show ?thesis using demo_run_dev by (intro conjI exI [of _ evs]) simp_all
qed

end
